theory Spec2Isabelle
  imports Main "HOL-Library.Sublist"
begin

section \<open>Text: characters, character classes and string helpers\<close>

text \<open>
  The program is Python 3. A \<open>str\<close> is modelled as a \<^typ>\<open>string\<close>, each \<^typ>\<open>char\<close>
  standing for the code point of the same number (0 to 255). The classes below are the
  ones Python's \<open>re\<close> module and \<open>str\<close> methods use on these code points: \<open>\s\<close> and
  \<open>str.isspace\<close> accept 9-13, 28-32, 133 and 160; \<open>\w\<close> accepts the ASCII letters, digits
  and underscore and the Latin-1 letters and numerals.
\<close>

definition code_of :: "char \<Rightarrow> nat" where
  "code_of c = of_char c"

definition newline :: char where
  "newline = CHR 0x0A"

definition is_space :: "char \<Rightarrow> bool" where
  "is_space c = (let n = code_of c in
     (9 \<le> n \<and> n \<le> 13) \<or> (28 \<le> n \<and> n \<le> 32) \<or> n = 133 \<or> n = 160)"

definition is_ident :: "char \<Rightarrow> bool" where
  \<comment> \<open>the class \<open>[A-Za-z0-9_]\<close>\<close>
  "is_ident c = (let n = code_of c in
     (48 \<le> n \<and> n \<le> 57) \<or> (65 \<le> n \<and> n \<le> 90) \<or> (97 \<le> n \<and> n \<le> 122) \<or> n = 95)"

definition is_dotted :: "char \<Rightarrow> bool" where
  \<comment> \<open>the class \<open>[A-Za-z0-9_.]\<close>\<close>
  "is_dotted c = (is_ident c \<or> c = CHR ''.'')"

definition is_iface_char :: "char \<Rightarrow> bool" where
  \<comment> \<open>the class \<open>[A-Za-z0-9_.,\s]\<close>\<close>
  "is_iface_char c = (is_dotted c \<or> c = CHR '','' \<or> is_space c)"

definition is_word :: "char \<Rightarrow> bool" where
  \<comment> \<open>the class \<open>\w\<close> of a \<open>str\<close> pattern\<close>
  "is_word c = (is_ident c \<or> (let n = code_of c in
     n = 170 \<or> n = 178 \<or> n = 179 \<or> n = 181 \<or> n = 185 \<or> n = 186 \<or>
     (188 \<le> n \<and> n \<le> 190) \<or> (192 \<le> n \<and> n \<le> 214) \<or>
     (216 \<le> n \<and> n \<le> 246) \<or> 248 \<le> n))"

definition is_bracket :: "char \<Rightarrow> bool" where
  \<comment> \<open>the class \<open>[{}\[\]()<>]\<close>\<close>
  "is_bracket c = (c \<in> set ''{}[]()<>'')"

text \<open>
  \<open>str.lower\<close> on these code points: the letters \<open>A\<close> to \<open>Z\<close> and the Latin-1 capitals
  192 to 222 (without the sign 215) move up by 32; every other character stays.
\<close>

definition upper_chars :: string where
  "upper_chars = ''ABCDEFGHIJKLMNOPQRSTUVWXYZ'' @
     [CHR 0xC0, CHR 0xC1, CHR 0xC2, CHR 0xC3, CHR 0xC4, CHR 0xC5, CHR 0xC6, CHR 0xC7,
      CHR 0xC8, CHR 0xC9, CHR 0xCA, CHR 0xCB, CHR 0xCC, CHR 0xCD, CHR 0xCE, CHR 0xCF,
      CHR 0xD0, CHR 0xD1, CHR 0xD2, CHR 0xD3, CHR 0xD4, CHR 0xD5, CHR 0xD6, CHR 0xD8,
      CHR 0xD9, CHR 0xDA, CHR 0xDB, CHR 0xDC, CHR 0xDD, CHR 0xDE]"

definition lower_chars :: string where
  "lower_chars = ''abcdefghijklmnopqrstuvwxyz'' @
     [CHR 0xE0, CHR 0xE1, CHR 0xE2, CHR 0xE3, CHR 0xE4, CHR 0xE5, CHR 0xE6, CHR 0xE7,
      CHR 0xE8, CHR 0xE9, CHR 0xEA, CHR 0xEB, CHR 0xEC, CHR 0xED, CHR 0xEE, CHR 0xEF,
      CHR 0xF0, CHR 0xF1, CHR 0xF2, CHR 0xF3, CHR 0xF4, CHR 0xF5, CHR 0xF6, CHR 0xF8,
      CHR 0xF9, CHR 0xFA, CHR 0xFB, CHR 0xFC, CHR 0xFD, CHR 0xFE]"

definition lower_char :: "char \<Rightarrow> char" where
  "lower_char c = (case map_of (zip upper_chars lower_chars) c of None \<Rightarrow> c | Some l \<Rightarrow> l)"

definition lower :: "string \<Rightarrow> string" where
  "lower s = map lower_char s"

definition strip :: "string \<Rightarrow> string" where
  "strip s = rev (dropWhile is_space (rev (dropWhile is_space s)))"

text \<open>\<open>s.split(sep)\<close> for a one-character separator: never an empty list.\<close>

fun split_on :: "char \<Rightarrow> string \<Rightarrow> string list" where
  "split_on sep [] = [[]]"
| "split_on sep (c # cs) =
     (if c = sep then [] # split_on sep cs
      else (case split_on sep cs of
              [] \<Rightarrow> [[c]]
            | w # ws \<Rightarrow> (c # w) # ws))"

text \<open>\<open>sep.join(parts)\<close>.\<close>

fun join :: "string \<Rightarrow> string list \<Rightarrow> string" where
  "join sep [] = []"
| "join sep [p] = p"
| "join sep (p # q # ps) = p @ sep @ join sep (q # ps)"

section \<open>optimize_code_tokens\<close>

text \<open>
  Each \<open>re.sub\<close> of the function is one scanning function: it looks for the leftmost
  match from the current position, replaces it and goes on after the match; where nothing
  matches at the position, the character is kept.
\<close>

lemma dropWhile_Cons_length:
  "dropWhile P xs = d # ds \<Longrightarrow> length (dropWhile Q ds) < length xs"
proof -
  assume a: "dropWhile P xs = d # ds"
  have "length (dropWhile P xs) \<le> length xs"
    by (rule length_dropWhile_le)
  with a have "length ds < length xs"
    by simp
  moreover have "length (dropWhile Q ds) \<le> length ds"
    by (rule length_dropWhile_le)
  ultimately show ?thesis
    by simp
qed

text \<open>\<open>re.sub(r'\s+', ' ', code)\<close>\<close>

function sub_spaces :: "string \<Rightarrow> string" where
  "sub_spaces [] = []"
| "sub_spaces (c # cs) =
     (if is_space c then CHR '' '' # sub_spaces (dropWhile is_space cs)
      else c # sub_spaces cs)"
  by pat_completeness auto
termination
  by (relation "measure length") (auto simp: le_imp_less_Suc length_dropWhile_le)

text \<open>\<open>re.sub(r'\s*{\s*', '{', code)\<close> and the same for \<open>}\<close>: \<open>b\<close> is the brace.\<close>

function sub_brace :: "char \<Rightarrow> string \<Rightarrow> string" where
  "sub_brace b [] = []"
| "sub_brace b (c # cs) =
     (case dropWhile is_space (c # cs) of
        [] \<Rightarrow> c # sub_brace b cs
      | d # ds \<Rightarrow>
          if d = b then b # sub_brace b (dropWhile is_space ds)
          else c # sub_brace b cs)"
  by pat_completeness auto
termination
proof (relation "measure (\<lambda>(b, s). length s)")
  fix b c :: char and cs d ds
  assume "dropWhile is_space (c # cs) = d # ds"
  then have "length (dropWhile is_space ds) < length (c # cs)"
    by (rule dropWhile_Cons_length)
  then show "((b, dropWhile is_space ds), b, c # cs) \<in> measure (\<lambda>(b, s). length s)"
    by simp
qed simp_all

text \<open>
  \<open>re.sub(r'//.*?\n', '\n', code)\<close>: the dot does not match a newline, so a match is
  \<open>//\<close>, the characters up to the next newline, and that newline.
\<close>

function sub_line_comments :: "string \<Rightarrow> string" where
  "sub_line_comments [] = []"
| "sub_line_comments (c # cs) =
     (if prefix ''//'' (c # cs) then
        (case dropWhile (\<lambda>x. x \<noteq> newline) (drop 2 (c # cs)) of
           [] \<Rightarrow> c # sub_line_comments cs
         | n # rest \<Rightarrow> newline # sub_line_comments rest)
      else c # sub_line_comments cs)"
  by pat_completeness auto
termination
proof (relation "measure length")
  fix c :: char and cs n rest
  assume "dropWhile (\<lambda>x. x \<noteq> newline) (drop 2 (c # cs)) = n # rest"
  then have "length (n # rest) \<le> length (drop 2 (c # cs))"
    by (metis length_dropWhile_le)
  then show "(rest, c # cs) \<in> measure length"
    by simp
qed auto

text \<open>
  \<open>re.sub(r'/\*.*?\*/', '', code, flags=re.DOTALL)\<close>: a match is \<open>/*\<close> up to the first
  \<open>*/\<close> that follows it. \<open>after_close s\<close> is the text after the first \<open>*/\<close> of \<open>s\<close>.
\<close>

fun after_close :: "string \<Rightarrow> string option" where
  "after_close (a # b # cs) =
     (if a = CHR ''*'' \<and> b = CHR ''/'' then Some cs else after_close (b # cs))"
| "after_close cs = None"

lemma after_close_length: "after_close s = Some r \<Longrightarrow> length r < length s"
  by (induction s rule: after_close.induct) (auto split: if_splits)

function sub_block_comments :: "string \<Rightarrow> string" where
  "sub_block_comments [] = []"
| "sub_block_comments (c # cs) =
     (if prefix ''/*'' (c # cs) then
        (case after_close (drop 2 (c # cs)) of
           None \<Rightarrow> c # sub_block_comments cs
         | Some rest \<Rightarrow> sub_block_comments rest)
      else c # sub_block_comments cs)"
  by pat_completeness auto
termination
proof (relation "measure length")
  fix c :: char and cs rest
  assume "after_close (drop 2 (c # cs)) = Some rest"
  then have "length rest < length (drop 2 (c # cs))"
    by (rule after_close_length)
  then show "(rest, c # cs) \<in> measure length"
    by simp
qed auto

text \<open>
  \<open>re.sub(r'\n\s*\n', '\n', code)\<close>: \<open>\s*\<close> is greedy and a newline is whitespace, so a
  match starting at a newline runs to the last newline of the whitespace that follows.
\<close>

definition after_last_newline :: "string \<Rightarrow> string" where
  "after_last_newline ws = rev (takeWhile (\<lambda>x. x \<noteq> newline) (rev ws))"

function sub_blank_lines :: "string \<Rightarrow> string" where
  "sub_blank_lines [] = []"
| "sub_blank_lines (c # cs) =
     (if c = newline \<and> newline \<in> set (takeWhile is_space cs) then
        newline # sub_blank_lines (after_last_newline (takeWhile is_space cs) @ dropWhile is_space cs)
      else c # sub_blank_lines cs)"
  by pat_completeness auto
termination
proof (relation "measure length")
  fix c :: char and cs
  have "length (after_last_newline (takeWhile is_space cs)) \<le> length (takeWhile is_space cs)"
    unfolding after_last_newline_def
    by (metis length_rev length_takeWhile_le)
  moreover have "length (takeWhile is_space cs) + length (dropWhile is_space cs) = length cs"
    by (metis length_append takeWhile_dropWhile_id)
  ultimately show
    "(after_last_newline (takeWhile is_space cs) @ dropWhile is_space cs, c # cs) \<in> measure length"
    by simp
qed auto

definition optimize_code_tokens :: "string \<Rightarrow> string" where
  "optimize_code_tokens code =
     (let code = sub_spaces code;
          code = sub_brace (CHR ''{'') code;
          code = sub_brace (CHR ''}'') code;
          code = sub_line_comments code;
          code = sub_block_comments code;
          code = sub_blank_lines code
      in strip code)"

section \<open>calculate_tokens\<close>

text \<open>
  \<open>re.findall(r'\w+|[^\w\s]', text)\<close>: at a word character the first alternative takes
  the whole run of word characters; at any other character that is not whitespace the
  second alternative takes that one character.
\<close>

function findall_words :: "string \<Rightarrow> string list" where
  "findall_words [] = []"
| "findall_words (c # cs) =
     (if is_word c then takeWhile is_word (c # cs) # findall_words (dropWhile is_word cs)
      else if \<not> is_space c then [c] # findall_words cs
      else findall_words cs)"
  by pat_completeness auto
termination
  by (relation "measure length") (auto simp: le_imp_less_Suc length_dropWhile_le)

text \<open>\<open>re.findall(r'[{}\[\]()<>]', text)\<close>\<close>

definition findall_brackets :: "string \<Rightarrow> string list" where
  "findall_brackets text = map (\<lambda>c. [c]) (filter is_bracket text)"

text \<open>\<open>re.findall(r'\s+', text)\<close>\<close>

function findall_spaces :: "string \<Rightarrow> string list" where
  "findall_spaces [] = []"
| "findall_spaces (c # cs) =
     (if is_space c then takeWhile is_space (c # cs) # findall_spaces (dropWhile is_space cs)
      else findall_spaces cs)"
  by pat_completeness auto
termination
  by (relation "measure length") (auto simp: le_imp_less_Suc length_dropWhile_le)

text \<open>
  \<open>int(n * 1.2)\<close> for an \<open>int\<close> \<open>n \<ge> 0\<close>. Python converts \<open>n\<close> to a double, multiplies
  by the double nearest to 1.2, which is \<open>5404319552844595 / 2 ^ 52\<close>, rounds the exact
  product to a double, and \<open>int\<close> truncates. A double has 53 significant bits and
  rounding is to nearest, ties to even: \<open>round_double p\<close> is that rounding on a natural
  number \<open>p\<close>, and it is the rounding of \<open>p / 2 ^ 52\<close> as well, scaled by \<open>2 ^ 52\<close>.
  (The exponent range of a double is not modelled: the count of a text is far below
  \<open>2 ^ 1023\<close>.)
\<close>

fun bit_length :: "nat \<Rightarrow> nat" where
  "bit_length n = (if n = 0 then 0 else Suc (bit_length (n div 2)))"

declare bit_length.simps [simp del]

definition round_double :: "nat \<Rightarrow> nat" where
  "round_double p =
     (let e = bit_length p in
      if e \<le> 53 then p
      else
        let s = e - 53; q = p div 2 ^ s; r = p mod 2 ^ s; h = 2 ^ (s - 1)
        in (if h < r \<or> (r = h \<and> odd q) then q + 1 else q) * 2 ^ s)"

definition int_times_1_2 :: "nat \<Rightarrow> nat" where
  "int_times_1_2 n = round_double (round_double n * 5404319552844595) div 2 ^ 52"

definition calculate_tokens :: "string \<Rightarrow> nat" where
  "calculate_tokens text =
     (let words = findall_words text;
          special_tokens = length (findall_brackets text);
          whitespace = length (findall_spaces text)
      in int_times_1_2 (length words + special_tokens + whitespace))"

section \<open>The generator and what it reads\<close>

text \<open>
  \<open>generator\<close> is the \<open>JadxContextGenerator\<close> object together with what its methods read
  from outside the program:
  \<^item> \<open>MAX_TOKENS\<close>: the attribute of that name (100000 in \<open>__init__\<close>);
  \<^item> \<open>conn\<close>: the rows \<open>(class_name, file_path)\<close> of the table \<open>class_index\<close>, or \<open>None\<close>
    when there is no connection;
  \<^item> \<open>java_files\<close>: for each of the three search paths, in the order of \<open>search_paths\<close>,
    the \<open>*.java\<close> files that \<open>rglob\<close> yields there, each as the pair of the dotted name
    derived from its relative path and \<open>str(java_file)\<close> (a search path that does not
    exist yields no file);
  \<^item> \<open>read_file\<close>: the text that \<open>open(path).read()\<close> returns, \<open>None\<close> when it raises;
  \<^item> \<open>fnmatch\<close>: the library function \<open>fnmatch.fnmatch(name, pattern)\<close>;
  \<^item> \<open>set_iter\<close>: the order in which Python iterates over the \<open>set\<close> obtained from an
    empty set by \<open>update\<close> with the given list (it depends on the hashes of the strings);
  \<^item> \<open>relative_class\<close>: the dotted name of a path relative to \<open>output_dir\<close>, without
    its suffix; \<open>None\<close> when \<open>relative_to\<close> raises.
\<close>

record generator =
  MAX_TOKENS :: nat
  conn :: "(string \<times> string) list option"
  java_files :: "(string \<times> string) list list"
  read_file :: "string \<Rightarrow> string option"
  fnmatch :: "string \<Rightarrow> string \<Rightarrow> bool"
  set_iter :: "string list \<Rightarrow> string list"
  relative_class :: "string \<Rightarrow> string option"

text \<open>
  \<open>find_class_file\<close>: the row of the index with this exact name if there is one;
  otherwise the first file of the search paths whose derived name contains the name,
  compared in lower case.
\<close>

definition find_class_file :: "generator \<Rightarrow> string \<Rightarrow> string option" where
  "find_class_file g class_name =
     (case (case conn g of None \<Rightarrow> None | Some rows \<Rightarrow> map_of rows class_name) of
        Some file_path \<Rightarrow> Some file_path
      | None \<Rightarrow>
          (case find (\<lambda>(potential_class_name, java_file).
                        sublist (lower class_name) (lower potential_class_name))
                     (concat (java_files g)) of
             None \<Rightarrow> None
           | Some (potential_class_name, java_file) \<Rightarrow> Some java_file))"

definition get_class_content :: "generator \<Rightarrow> string \<Rightarrow> string" where
  "get_class_content g class_name =
     (case find_class_file g class_name of
        None \<Rightarrow> []
      | Some class_file \<Rightarrow>
          if class_file = [] then []
          else (case read_file g class_file of None \<Rightarrow> [] | Some text \<Rightarrow> text))"

section \<open>get_class_hierarchy and trace_usage\<close>

text \<open>
  \<open>re.search(r'extends\s+([A-Za-z0-9_.]+)', content)\<close>, group 1 of the leftmost match:
  the word, at least one whitespace character, and the longest run of the class.
\<close>

fun search_extends :: "string \<Rightarrow> string option" where
  "search_extends [] = None"
| "search_extends (c # cs) =
     (if prefix ''extends'' (c # cs) then
        (let after = drop 7 (c # cs);
             name = takeWhile is_dotted (dropWhile is_space after)
         in if takeWhile is_space after \<noteq> [] \<and> name \<noteq> [] then Some name
            else search_extends cs)
      else search_extends cs)"

text \<open>
  \<open>re.search(r'implements\s+([A-Za-z0-9_.,\s]+)', content)\<close>, group 1 of the leftmost
  match. The class of the group contains whitespace: when nothing of the class follows
  the whitespace, \<open>\s+\<close> gives its last character back to the group, which needs two
  whitespace characters at least.
\<close>

fun search_implements :: "string \<Rightarrow> string option" where
  "search_implements [] = None"
| "search_implements (c # cs) =
     (if prefix ''implements'' (c # cs) then
        (let after = drop 10 (c # cs);
             ws = takeWhile is_space after;
             run = takeWhile is_iface_char after
         in if ws = [] then search_implements cs
            else if length ws < length run then Some (drop (length ws) run)
            else if 2 \<le> length ws then Some [last ws]
            else search_implements cs)
      else search_implements cs)"

text \<open>
  \<open>re.findall(r'([A-Za-z0-9_]+\.[A-Za-z0-9_.]+)', content)\<close>: a match is a longest run
  of identifier characters, a dot, and a longest non-empty run of identifier characters
  and dots; the search goes on after the match.
\<close>

function findall_refs :: "string \<Rightarrow> string list" where
  "findall_refs [] = []"
| "findall_refs (c # cs) =
     (let a = takeWhile is_ident (c # cs);
          r = dropWhile is_ident (c # cs)
      in if a \<noteq> [] \<and> prefix ''.'' r \<and> takeWhile is_dotted (tl r) \<noteq> [] then
           (a @ ''.'' @ takeWhile is_dotted (tl r)) # findall_refs (dropWhile is_dotted (tl r))
         else findall_refs cs)"
  by pat_completeness auto
termination
proof (relation "measure length")
  fix c :: char and cs a r
  assume r: "r = dropWhile is_ident (c # cs)"
    and m: "a \<noteq> [] \<and> prefix ''.'' r \<and> takeWhile is_dotted (tl r) \<noteq> []"
  from m obtain d ds where cons: "r = d # ds"
    by (cases r) simp_all
  from r cons have "length (dropWhile is_dotted ds) < length (c # cs)"
    by (metis dropWhile_Cons_length)
  with cons show "(dropWhile is_dotted (tl r), c # cs) \<in> measure length"
    by simp
qed auto

text \<open>
  The dictionary \<open>hierarchy\<close>. \<open>referenced_classes\<close> is a Python set that the caller only
  iterates over: the field holds its elements in the order of that iteration.
\<close>

record hierarchy =
  superclasses :: "string list"
  interfaces :: "string list"
  inner_classes :: "string list"
  referenced_classes :: "string list"
  using_classes :: "string set"

definition empty_hierarchy :: hierarchy where
  "empty_hierarchy =
     \<lparr>superclasses = [], interfaces = [], inner_classes = [],
      referenced_classes = [], using_classes = {}\<rparr>"

text \<open>
  \<open>trace_usage\<close>: the body of its loop is inside \<open>try\<close>, so a file that cannot be read,
  or whose path is not under \<open>output_dir\<close>, adds nothing.
\<close>

definition trace_usage :: "generator \<Rightarrow> string \<Rightarrow> string set" where
  "trace_usage g class_name =
     (let class_simple_name = last (split_on (CHR ''.'') class_name) in
      case conn g of
        None \<Rightarrow> {}
      | Some files \<Rightarrow>
          set (concat (map (\<lambda>(name, file_path).
            case read_file g file_path of
              None \<Rightarrow> []
            | Some content \<Rightarrow>
                if sublist class_name content \<or> sublist class_simple_name content then
                  (case relative_class g file_path of None \<Rightarrow> [] | Some relative_path \<Rightarrow> [relative_path])
                else []) files)))"

text \<open>
  \<open>get_class_hierarchy\<close>, with the call of \<open>trace_usage\<close> as the parameter \<open>tracer\<close>
  (\<open>None\<close>: the call raises, and the \<open>except\<close> clause of \<open>get_class_hierarchy\<close> returns the
  dictionary as it is by then). The method itself is \<open>get_class_hierarchy\<close> below.
\<close>

definition get_class_hierarchy_with ::
  "(string \<Rightarrow> string set option) \<Rightarrow> generator \<Rightarrow> string \<Rightarrow> hierarchy" where
  "get_class_hierarchy_with tracer g class_name =
     (case find_class_file g class_name of
        None \<Rightarrow> empty_hierarchy
      | Some class_file \<Rightarrow>
          if class_file = [] then empty_hierarchy
          else (case read_file g class_file of
            None \<Rightarrow> empty_hierarchy
          | Some content \<Rightarrow>
              \<lparr>superclasses =
                 (case search_extends content of None \<Rightarrow> [] | Some name \<Rightarrow> [name]),
               interfaces =
                 (case search_implements content of
                    None \<Rightarrow> []
                  | Some names \<Rightarrow> map strip (split_on (CHR '','') names)),
               inner_classes = [],
               referenced_classes = set_iter g (findall_refs content),
               using_classes =
                 (case tracer class_name of None \<Rightarrow> {} | Some used \<Rightarrow> used)\<rparr>))"

definition get_class_hierarchy :: "generator \<Rightarrow> string \<Rightarrow> hierarchy" where
  "get_class_hierarchy g class_name =
     get_class_hierarchy_with (\<lambda>name. Some (trace_usage g name)) g class_name"

section \<open>matches_package_filter\<close>

text \<open>
  The two \<open>for\<close> loops of the method, each with its early \<open>return\<close>. The last argument
  is what is left to iterate over; \<open>whitelist_loop\<close> keeps the whole whitelist for the
  final \<open>len(whitelist) == 0\<close>.
\<close>

fun whitelist_loop :: "generator \<Rightarrow> string \<Rightarrow> string list \<Rightarrow> string list \<Rightarrow> bool" where
  "whitelist_loop g package whitelist [] = (length whitelist = 0)"
| "whitelist_loop g package whitelist (white # rest) =
     (if fnmatch g package white then True
      else whitelist_loop g package whitelist rest)"

fun blacklist_loop :: "generator \<Rightarrow> string \<Rightarrow> string list \<Rightarrow> string list \<Rightarrow> bool" where
  "blacklist_loop g package whitelist [] = whitelist_loop g package whitelist whitelist"
| "blacklist_loop g package whitelist (black # rest) =
     (if fnmatch g package black then False
      else blacklist_loop g package whitelist rest)"

definition matches_package_filter ::
  "generator \<Rightarrow> string \<Rightarrow> string list \<Rightarrow> string list \<Rightarrow> bool" where
  "matches_package_filter g package whitelist blacklist =
     blacklist_loop g package whitelist blacklist"

text \<open>
  The package of a class name, as \<open>_build_class_index\<close> derives it:
  \<open>'.'.join(class_name.split('.')[:-1])\<close>.
\<close>

definition package_of :: "string \<Rightarrow> string" where
  "package_of class_name = join ''.'' (butlast (split_on (CHR ''.'') class_name))"

section \<open>generate_context\<close>

text \<open>
  The local variables of \<open>generate_context\<close>. \<open>visits\<close> is not a variable of the program:
  it records, for each iteration of the loop, the name taken from the queue and the branch
  the body took, so that properties of a run can be stated. Nothing reads it.
\<close>

datatype branch = Already_processed | Filtered | No_content | Over_budget | Appended

record state =
  context_parts :: "string list"
  processed_classes :: "string set"
  classes_to_process :: "string list"
  total_tokens :: nat
  visits :: "(string \<times> branch) list"

definition visit :: "string \<Rightarrow> branch \<Rightarrow> state \<Rightarrow> state" where
  "visit name b s = s\<lparr>visits := visits s @ [(name, b)]\<rparr>"

text \<open>One iteration of the \<open>while\<close> loop, entered with a queue that is not empty.\<close>

definition loop_body ::
  "(string \<Rightarrow> string set option) \<Rightarrow> generator \<Rightarrow> string list \<Rightarrow> string list \<Rightarrow> state \<Rightarrow> state" where
  "loop_body tracer g whitelist blacklist s =
     (case classes_to_process s of
        [] \<Rightarrow> s
      | current_class # rest \<Rightarrow>
          let s = s\<lparr>classes_to_process := rest\<rparr> in
          if current_class \<in> processed_classes s then visit current_class Already_processed s
          else if \<not> matches_package_filter g current_class whitelist blacklist
            then visit current_class Filtered s
          else
            let class_content = get_class_content g current_class in
            if class_content = [] then visit current_class No_content s
            else
              let optimized_content = optimize_code_tokens class_content;
                  tokens_needed = calculate_tokens optimized_content;
                  s = (if total_tokens s + tokens_needed \<le> MAX_TOKENS g then
                         let hierarchy = get_class_hierarchy_with tracer g current_class
                         in visit current_class Appended
                              (s\<lparr>context_parts := context_parts s @ [optimized_content],
                                 total_tokens := total_tokens s + tokens_needed,
                                 classes_to_process :=
                                   classes_to_process s @ superclasses hierarchy
                                     @ interfaces hierarchy @ referenced_classes hierarchy\<rparr>)
                       else visit current_class Over_budget s)
              in s\<lparr>processed_classes := insert current_class (processed_classes s)\<rparr>)"

text \<open>
  The names for which \<open>find_class_file\<close> can find a file: the names of the index and the
  names contained in a derived name of the search paths. There are finitely many, which
  is why the loop ends.
\<close>

definition candidates :: "generator \<Rightarrow> string set" where
  "candidates g =
     (case conn g of None \<Rightarrow> {} | Some rows \<Rightarrow> fst ` set rows) \<union>
     (\<Union>x \<in> set (concat (java_files g)). {n. sublist (lower n) (lower (fst x))})"

lemma finite_contained_names: "finite {n. sublist (lower n) y}"
proof -
  have "{n. sublist (lower n) y} \<subseteq> {n. set n \<subseteq> (UNIV :: char set) \<and> length n \<le> length y}"
    using sublist_length_le [of "lower _" y] by (auto simp: lower_def)
  moreover have "finite {n. set n \<subseteq> (UNIV :: char set) \<and> length n \<le> length y}"
    by (rule finite_lists_length_le) simp
  ultimately show ?thesis
    by (rule finite_subset)
qed

lemma finite_candidates: "finite (candidates g)"
  unfolding candidates_def
  by (auto simp: finite_contained_names split: option.splits)

lemma find_SomeD: "find P xs = Some x \<Longrightarrow> x \<in> set xs \<and> P x"
  by (induction xs) (auto split: if_splits)

lemma find_class_file_candidates:
  assumes "find_class_file g n = Some p"
  shows "n \<in> candidates g"
proof (cases "case conn g of None \<Rightarrow> None | Some rows \<Rightarrow> map_of rows n")
  case (Some q)
  then obtain rows where "conn g = Some rows" "map_of rows n = Some q"
    by (auto split: option.splits)
  then have "n \<in> fst ` set rows"
    by (metis map_of_eq_None_iff option.distinct(1))
  with \<open>conn g = Some rows\<close> show ?thesis
    by (simp add: candidates_def)
next
  case None
  with assms obtain x where
    f: "find (\<lambda>(potential_class_name, java_file).
           sublist (lower n) (lower potential_class_name)) (concat (java_files g)) = Some x"
    by (auto simp: find_class_file_def split: option.splits)
  then have "x \<in> set (concat (java_files g))" and "sublist (lower n) (lower (fst x))"
    by (auto dest: find_SomeD split: prod.splits)
  then show ?thesis
    unfolding candidates_def by blast
qed

lemma get_class_content_candidates:
  "get_class_content g n \<noteq> [] \<Longrightarrow> n \<in> candidates g"
  by (auto simp: get_class_content_def find_class_file_candidates split: option.splits if_splits)

lemma card_candidates_insert:
  assumes "n \<in> candidates g" and "n \<notin> P"
  shows "card (candidates g - insert n P) < card (candidates g - P)"
proof (rule psubset_card_mono)
  show "finite (candidates g - P)"
    using finite_candidates by simp
  show "candidates g - insert n P \<subset> candidates g - P"
    using assms by auto
qed

lemma loop_body_decreases:
  assumes "classes_to_process s \<noteq> []"
  shows "card (candidates g - processed_classes (loop_body tracer g whitelist blacklist s))
           < card (candidates g - processed_classes s)
       \<or> (processed_classes (loop_body tracer g whitelist blacklist s) = processed_classes s
          \<and> length (classes_to_process (loop_body tracer g whitelist blacklist s))
              < length (classes_to_process s))"
proof -
  from assms obtain c rest where q: "classes_to_process s = c # rest"
    by (cases "classes_to_process s") auto
  show ?thesis
  proof (cases "c \<notin> processed_classes s \<and> matches_package_filter g c whitelist blacklist
                 \<and> get_class_content g c \<noteq> []")
    case True
    then have "c \<in> candidates g" and "c \<notin> processed_classes s"
      by (simp_all add: get_class_content_candidates)
    then have "card (candidates g - insert c (processed_classes s))
                 < card (candidates g - processed_classes s)"
      by (rule card_candidates_insert)
    with True q show ?thesis
      by (simp add: loop_body_def visit_def Let_def)
  next
    case False
    with q show ?thesis
      by (auto simp: loop_body_def visit_def Let_def)
  qed
qed

function generate_loop ::
  "(string \<Rightarrow> string set option) \<Rightarrow> generator \<Rightarrow> string list \<Rightarrow> string list \<Rightarrow> state \<Rightarrow> state" where
  "generate_loop tracer g whitelist blacklist s =
     (if classes_to_process s \<noteq> [] \<and> total_tokens s < MAX_TOKENS g
      then generate_loop tracer g whitelist blacklist (loop_body tracer g whitelist blacklist s)
      else s)"
  by pat_completeness auto
termination
proof (relation "measures
    [\<lambda>(tracer, g, whitelist, blacklist, s). card (candidates g - processed_classes s),
     \<lambda>(tracer, g, whitelist, blacklist, s). length (classes_to_process s)]")
  fix tracer :: "string \<Rightarrow> string set option" and g :: generator
    and whitelist blacklist :: "string list" and s :: state
  assume "classes_to_process s \<noteq> [] \<and> total_tokens s < MAX_TOKENS g"
  then have "classes_to_process s \<noteq> []"
    by simp
  from loop_body_decreases [OF this, of g tracer whitelist blacklist]
  show "((tracer, g, whitelist, blacklist, loop_body tracer g whitelist blacklist s),
         tracer, g, whitelist, blacklist, s)
        \<in> measures
            [\<lambda>(tracer, g, whitelist, blacklist, s). card (candidates g - processed_classes s),
             \<lambda>(tracer, g, whitelist, blacklist, s). length (classes_to_process s)]"
    by auto
qed simp

declare generate_loop.simps [simp del]

definition initial_state :: "string \<Rightarrow> state" where
  "initial_state target_class =
     \<lparr>context_parts = [], processed_classes = {}, classes_to_process = [target_class],
      total_tokens = 0, visits = []\<rparr>"

text \<open>The arguments \<open>whitelist\<close> and \<open>blacklist\<close> default to \<open>None\<close>, which stands for \<open>[]\<close>.\<close>

definition or_empty :: "string list option \<Rightarrow> string list" where
  "or_empty l = (case l of None \<Rightarrow> [] | Some xs \<Rightarrow> xs)"

text \<open>The local variables of \<open>generate_context\<close> when its loop has ended.\<close>

definition final_state ::
  "(string \<Rightarrow> string set option) \<Rightarrow> generator \<Rightarrow> string \<Rightarrow> string list option \<Rightarrow> string list option \<Rightarrow> state" where
  "final_state tracer g target_class whitelist blacklist =
     generate_loop tracer g (or_empty whitelist) (or_empty blacklist) (initial_state target_class)"

definition generate_context_with ::
  "(string \<Rightarrow> string set option) \<Rightarrow> generator \<Rightarrow> string \<Rightarrow> string list option \<Rightarrow> string list option \<Rightarrow> string" where
  "generate_context_with tracer g target_class whitelist blacklist =
     join [newline, newline]
       (context_parts (final_state tracer g target_class whitelist blacklist))"

definition generate_context ::
  "generator \<Rightarrow> string \<Rightarrow> string list option \<Rightarrow> string list option \<Rightarrow> string" where
  "generate_context g target_class whitelist blacklist =
     generate_context_with (\<lambda>name. Some (trace_usage g name)) g target_class whitelist blacklist"

section \<open>Observing a run\<close>

text \<open>
  What a class contributes to the output, and the names it puts on the queue when it is
  appended: its superclass, its interfaces and the names it mentions.
\<close>

definition edges :: "generator \<Rightarrow> string \<Rightarrow> string list" where
  "edges g class_name =
     (let hierarchy = get_class_hierarchy g class_name
      in superclasses hierarchy @ interfaces hierarchy @ referenced_classes hierarchy)"

definition body :: "generator \<Rightarrow> string \<Rightarrow> string" where
  "body g class_name = optimize_code_tokens (get_class_content g class_name)"

definition appended_names :: "state \<Rightarrow> string list" where
  "appended_names s = map fst (filter (\<lambda>v. snd v = Appended) (visits s))"


text \<open>
  The states of the local variables at the head of the loop, one per test of the loop
  condition: the first is the initial state, the last is the state the loop ends in.
\<close>

function loop_states ::
  "(string \<Rightarrow> string set option) \<Rightarrow> generator \<Rightarrow> string list \<Rightarrow> string list \<Rightarrow> state \<Rightarrow> state list" where
  "loop_states tracer g whitelist blacklist s =
     s # (if classes_to_process s \<noteq> [] \<and> total_tokens s < MAX_TOKENS g
          then loop_states tracer g whitelist blacklist (loop_body tracer g whitelist blacklist s)
          else [])"
  by pat_completeness auto
termination
proof (relation "measures
    [\<lambda>(tracer, g, whitelist, blacklist, s). card (candidates g - processed_classes s),
     \<lambda>(tracer, g, whitelist, blacklist, s). length (classes_to_process s)]")
  fix tracer :: "string \<Rightarrow> string set option" and g :: generator
    and whitelist blacklist :: "string list" and s :: state
  assume "classes_to_process s \<noteq> [] \<and> total_tokens s < MAX_TOKENS g"
  then have "classes_to_process s \<noteq> []"
    by simp
  from loop_body_decreases [OF this, of g tracer whitelist blacklist]
  show "((tracer, g, whitelist, blacklist, loop_body tracer g whitelist blacklist s),
         tracer, g, whitelist, blacklist, s)
        \<in> measures
            [\<lambda>(tracer, g, whitelist, blacklist, s). card (candidates g - processed_classes s),
             \<lambda>(tracer, g, whitelist, blacklist, s). length (classes_to_process s)]"
    by auto
qed simp

declare loop_states.simps [simp del]


text \<open>The invariants of the loop used below.\<close>

definition visited_once :: "generator \<Rightarrow> state \<Rightarrow> bool" where
  "visited_once g s =
     (distinct (appended_names s) \<and> set (appended_names s) \<subseteq> processed_classes s \<and>
      context_parts s = map (body g) (appended_names s))"


definition queued_from :: "generator \<Rightarrow> string \<Rightarrow> state \<Rightarrow> bool" where
  "queued_from g target_class s =
     (set (classes_to_process s) \<union> fst ` set (visits s)
        \<subseteq> insert target_class (\<Union>c \<in> set (appended_names s). set (edges g c)))"


section \<open>The token estimate as the specification words it\<close>

text \<open>
  The three counts of the token estimate in the words of the specification, to be
  compared with what \<open>calculate_tokens\<close> computes. A maximal run of characters with the
  property \<open>P\<close> ends at a character with \<open>P\<close> that is the last one or is followed by a
  character without \<open>P\<close>: \<open>count_runs\<close> counts these ends.
\<close>

fun count_runs :: "(char \<Rightarrow> bool) \<Rightarrow> string \<Rightarrow> nat" where
  "count_runs P [] = 0"
| "count_runs P [c] = (if P c then 1 else 0)"
| "count_runs P (c # d # cs) = (if P c \<and> \<not> P d then 1 else 0) + count_runs P (d # cs)"

definition is_symbol :: "char \<Rightarrow> bool" where
  "is_symbol c = (\<not> is_word c \<and> \<not> is_space c)"

definition word_count :: "string \<Rightarrow> nat" where
  "word_count text = count_runs is_word text + length (filter is_symbol text)"

definition bracket_count :: "string \<Rightarrow> nat" where
  "bracket_count text = length (filter is_bracket text)"

definition whitespace_run_count :: "string \<Rightarrow> nat" where
  "whitespace_run_count text = count_runs is_space text"

section \<open>Concrete inputs\<close>

text \<open>
  \<open>fnmatch.fnmatch\<close> on POSIX for a pattern without bracket expressions: \<open>*\<close> matches
  any run of characters, \<open>?\<close> any one character, every other character itself.
\<close>

fun fnmatch_plain :: "string \<Rightarrow> string \<Rightarrow> bool" where
  "fnmatch_plain name [] = (name = [])"
| "fnmatch_plain name (p # ps) =
     (if p = CHR ''*'' then
        fnmatch_plain name ps \<or>
        (case name of [] \<Rightarrow> False | c # cs \<Rightarrow> fnmatch_plain cs (p # ps))
      else
        (case name of [] \<Rightarrow> False | c # cs \<Rightarrow> (p = CHR ''?'' \<or> p = c) \<and> fnmatch_plain cs ps))"

text \<open>
  A corpus of three classes in the package \<open>x\<close>, decompiled straight into the output
  directory (the first two search paths do not exist): \<open>x.A\<close> mentions \<open>x.B\<close> and \<open>x.C\<close>,
  and \<open>x.B\<close> mentions \<open>x.A\<close> back. The index holds what \<open>_build_class_index\<close> derives
  from these three files.
\<close>

definition corpus_files :: "(string \<times> string) list" where
  "corpus_files =
     [(''x.A'', ''decompiled_output/x/A.java''),
      (''x.B'', ''decompiled_output/x/B.java''),
      (''x.C'', ''decompiled_output/x/C.java'')]"

definition corpus_text :: "(string \<times> string) list" where
  "corpus_text =
     [(''decompiled_output/x/A.java'', ''class A { x.B b; x.C c; }''),
      (''decompiled_output/x/B.java'', ''class B { x.A a; }''),
      (''decompiled_output/x/C.java'', ''class C { }'')]"

definition corpus :: generator where
  "corpus =
     \<lparr>MAX_TOKENS = 100000,
      conn = Some corpus_files,
      java_files = [[], [], corpus_files],
      read_file = map_of corpus_text,
      fnmatch = fnmatch_plain,
      set_iter = remdups,
      relative_class = map_of (map (\<lambda>(name, path). (path, name)) corpus_files)\<rparr>"

text \<open>The same corpus with another budget and another iteration order of sets.\<close>

definition corpus_with :: "nat \<Rightarrow> (string list \<Rightarrow> string list) \<Rightarrow> generator" where
  "corpus_with m f = corpus\<lparr>MAX_TOKENS := m, set_iter := f\<rparr>"

text \<open>
  Two more iteration orders: one lists the elements of a set backwards, the other does so
  only for sets built from more than two insertions.
\<close>

definition reversed_order :: "string list \<Rightarrow> string list" where
  "reversed_order xs = rev (remdups xs)"

definition other_order :: "string list \<Rightarrow> string list" where
  "other_order xs = (if length xs \<le> 2 then remdups xs else rev (remdups xs))"

text \<open>A tracer that always raises.\<close>

definition no_tracer :: "string \<Rightarrow> string set option" where
  "no_tracer name = None"

text \<open>The run on the corpus with a budget of 35: \<open>x.B\<close> does not fit, \<open>x.C\<close> does.\<close>

definition tight_1 :: state where
  "tight_1 =
     \<lparr>context_parts = [''class A{x.B b; x.C c;}''], processed_classes = {''x.A''},
      classes_to_process = [''x.B'', ''x.C''], total_tokens = 24,
      visits = [(''x.A'', Appended)]\<rparr>"

definition tight_2 :: state where
  "tight_2 =
     \<lparr>context_parts = [''class A{x.B b; x.C c;}''], processed_classes = {''x.B'', ''x.A''},
      classes_to_process = [''x.C''], total_tokens = 24,
      visits = [(''x.A'', Appended), (''x.B'', Over_budget)]\<rparr>"

definition tight_3 :: state where
  "tight_3 =
     \<lparr>context_parts = [''class A{x.B b; x.C c;}'', ''class C{}''],
      processed_classes = {''x.C'', ''x.B'', ''x.A''},
      classes_to_process = [], total_tokens = 32,
      visits = [(''x.A'', Appended), (''x.B'', Over_budget), (''x.C'', Appended)]\<rparr>"

section \<open>The package filter\<close>

lemma whitelist_loop_iff:
  "whitelist_loop g package whitelist rest =
     ((\<exists>white \<in> set rest. fnmatch g package white) \<or> whitelist = [])"
  by (induction rest) auto

lemma blacklist_loop_iff:
  "blacklist_loop g package whitelist rest =
     ((\<forall>black \<in> set rest. \<not> fnmatch g package black) \<and>
      whitelist_loop g package whitelist whitelist)"
  by (induction rest) auto

text \<open>
  C2. For every package name, whitelist and blacklist: the filter returns false if some
  pattern of the blacklist matches the name, whatever the whitelist holds; otherwise it
  returns true if some pattern of the whitelist matches; otherwise it returns true
  exactly when the whitelist is empty.
\<close>

theorem matches_package_filter_order:
  "matches_package_filter g package whitelist blacklist =
     (if \<exists>black \<in> set blacklist. fnmatch g package black then False
      else if \<exists>white \<in> set whitelist. fnmatch g package white then True
      else whitelist = [])"
  unfolding matches_package_filter_def blacklist_loop_iff whitelist_loop_iff
  by auto

theorem matches_package_filter_order_witness:
  "\<not> matches_package_filter corpus ''x.A'' [''x.*''] [''y.*'', ''*.A'']
   \<and> matches_package_filter corpus ''x.A'' [''y.*'', ''x.?''] [''y.*'']
   \<and> matches_package_filter corpus ''x.A'' [] [''y.*'']
   \<and> \<not> matches_package_filter corpus ''x.A'' [''y.*''] []"
  using matches_package_filter_order [of corpus "''x.A''" "[''x.*'']" "[''y.*'', ''*.A'']"]
    matches_package_filter_order [of corpus "''x.A''" "[''y.*'', ''x.?'']" "[''y.*'']"]
    matches_package_filter_order [of corpus "''x.A''" "[]" "[''y.*'']"]
    matches_package_filter_order [of corpus "''x.A''" "[''y.*'']" "[]"]
  by (simp add: corpus_def)

section \<open>The loop and its branches\<close>

lemma generate_loop_invariant:
  assumes "I s"
    and "\<And>s. I s \<Longrightarrow> classes_to_process s \<noteq> [] \<Longrightarrow> total_tokens s < MAX_TOKENS g
          \<Longrightarrow> I (loop_body tracer g whitelist blacklist s)"
  shows "I (generate_loop tracer g whitelist blacklist s)"
  using assms
proof (induction tracer g whitelist blacklist s rule: generate_loop.induct)
  case (1 tracer g whitelist blacklist s)
  show ?case
  proof (cases "classes_to_process s \<noteq> [] \<and> total_tokens s < MAX_TOKENS g")
    case True
    then have "I (loop_body tracer g whitelist blacklist s)"
      using "1.prems" by simp
    with True "1.IH" "1.prems"(2)
    have "I (generate_loop tracer g whitelist blacklist (loop_body tracer g whitelist blacklist s))"
      by blast
    with True show ?thesis
      by (simp add: generate_loop.simps [of tracer g whitelist blacklist s])
  next
    case False
    with "1.prems"(1) show ?thesis
      by (auto simp add: generate_loop.simps [of tracer g whitelist blacklist s])
  qed
qed

lemma generate_loop_continue:
  "classes_to_process s \<noteq> [] \<Longrightarrow> total_tokens s < MAX_TOKENS g \<Longrightarrow>
   generate_loop tracer g whitelist blacklist s =
     generate_loop tracer g whitelist blacklist (loop_body tracer g whitelist blacklist s)"
  by (simp add: generate_loop.simps [of tracer g whitelist blacklist s])

lemma generate_loop_stop:
  "classes_to_process s = [] \<or> MAX_TOKENS g \<le> total_tokens s \<Longrightarrow>
   generate_loop tracer g whitelist blacklist s = s"
  by (auto simp add: generate_loop.simps [of tracer g whitelist blacklist s])

lemma generate_loop_exit:
  "classes_to_process (generate_loop tracer g whitelist blacklist s) = []
   \<or> MAX_TOKENS g \<le> total_tokens (generate_loop tracer g whitelist blacklist s)"
proof (induction tracer g whitelist blacklist s rule: generate_loop.induct)
  case (1 tracer g whitelist blacklist s)
  show ?case
  proof (cases "classes_to_process s \<noteq> [] \<and> total_tokens s < MAX_TOKENS g")
    case True
    with "1.IH" show ?thesis
      by (simp add: generate_loop_continue)
  next
    case False
    then show ?thesis
      by (auto simp: generate_loop_stop)
  qed
qed

text \<open>The five branches of the loop body.\<close>

lemma loop_body_processed:
  "classes_to_process s = c # rest \<Longrightarrow> c \<in> processed_classes s \<Longrightarrow>
   loop_body tracer g whitelist blacklist s =
     visit c Already_processed (s\<lparr>classes_to_process := rest\<rparr>)"
  by (simp add: loop_body_def)

lemma loop_body_filtered:
  "classes_to_process s = c # rest \<Longrightarrow> c \<notin> processed_classes s \<Longrightarrow>
   \<not> matches_package_filter g c whitelist blacklist \<Longrightarrow>
   loop_body tracer g whitelist blacklist s = visit c Filtered (s\<lparr>classes_to_process := rest\<rparr>)"
  by (simp add: loop_body_def)

lemma loop_body_no_content:
  "classes_to_process s = c # rest \<Longrightarrow> c \<notin> processed_classes s \<Longrightarrow>
   matches_package_filter g c whitelist blacklist \<Longrightarrow> get_class_content g c = [] \<Longrightarrow>
   loop_body tracer g whitelist blacklist s = visit c No_content (s\<lparr>classes_to_process := rest\<rparr>)"
  by (simp add: loop_body_def)

lemma loop_body_over_budget:
  "classes_to_process s = c # rest \<Longrightarrow> c \<notin> processed_classes s \<Longrightarrow>
   matches_package_filter g c whitelist blacklist \<Longrightarrow> get_class_content g c \<noteq> [] \<Longrightarrow>
   MAX_TOKENS g < total_tokens s + calculate_tokens (body g c) \<Longrightarrow>
   loop_body tracer g whitelist blacklist s =
     (visit c Over_budget (s\<lparr>classes_to_process := rest\<rparr>))
       \<lparr>processed_classes := insert c (processed_classes s)\<rparr>"
  by (simp add: loop_body_def body_def visit_def Let_def)

lemma hierarchy_fields:
  "superclasses (get_class_hierarchy_with tracer g c) = superclasses (get_class_hierarchy g c)"
  "interfaces (get_class_hierarchy_with tracer g c) = interfaces (get_class_hierarchy g c)"
  "referenced_classes (get_class_hierarchy_with tracer g c) = referenced_classes (get_class_hierarchy g c)"
  by (simp_all add: get_class_hierarchy_def get_class_hierarchy_with_def empty_hierarchy_def
      split: option.splits)

lemma loop_body_appended:
  "classes_to_process s = c # rest \<Longrightarrow> c \<notin> processed_classes s \<Longrightarrow>
   matches_package_filter g c whitelist blacklist \<Longrightarrow> get_class_content g c \<noteq> [] \<Longrightarrow>
   total_tokens s + calculate_tokens (body g c) \<le> MAX_TOKENS g \<Longrightarrow>
   loop_body tracer g whitelist blacklist s =
     s\<lparr>context_parts := context_parts s @ [body g c],
       processed_classes := insert c (processed_classes s),
       classes_to_process := rest @ edges g c,
       total_tokens := total_tokens s + calculate_tokens (body g c),
       visits := visits s @ [(c, Appended)]\<rparr>"
  by (simp add: loop_body_def body_def visit_def Let_def edges_def hierarchy_fields)

lemma loop_body_cases:
  assumes "classes_to_process s = c # rest"
  obtains
    (processed) "c \<in> processed_classes s"
      "loop_body tracer g whitelist blacklist s =
         visit c Already_processed (s\<lparr>classes_to_process := rest\<rparr>)"
  | (filtered) "c \<notin> processed_classes s" "\<not> matches_package_filter g c whitelist blacklist"
      "loop_body tracer g whitelist blacklist s = visit c Filtered (s\<lparr>classes_to_process := rest\<rparr>)"
  | (no_content) "c \<notin> processed_classes s" "matches_package_filter g c whitelist blacklist"
      "get_class_content g c = []"
      "loop_body tracer g whitelist blacklist s = visit c No_content (s\<lparr>classes_to_process := rest\<rparr>)"
  | (over_budget) "c \<notin> processed_classes s" "matches_package_filter g c whitelist blacklist"
      "get_class_content g c \<noteq> []" "MAX_TOKENS g < total_tokens s + calculate_tokens (body g c)"
      "loop_body tracer g whitelist blacklist s =
         (visit c Over_budget (s\<lparr>classes_to_process := rest\<rparr>))
           \<lparr>processed_classes := insert c (processed_classes s)\<rparr>"
  | (appended) "c \<notin> processed_classes s" "matches_package_filter g c whitelist blacklist"
      "get_class_content g c \<noteq> []" "total_tokens s + calculate_tokens (body g c) \<le> MAX_TOKENS g"
      "loop_body tracer g whitelist blacklist s =
         s\<lparr>context_parts := context_parts s @ [body g c],
           processed_classes := insert c (processed_classes s),
           classes_to_process := rest @ edges g c,
           total_tokens := total_tokens s + calculate_tokens (body g c),
           visits := visits s @ [(c, Appended)]\<rparr>"
  using assms loop_body_processed loop_body_filtered loop_body_no_content
    loop_body_over_budget loop_body_appended
  by (metis not_le_imp_less)

lemma loop_states_last:
  "last (loop_states tracer g whitelist blacklist s) = generate_loop tracer g whitelist blacklist s"
proof (induction tracer g whitelist blacklist s rule: loop_states.induct)
  case (1 tracer g whitelist blacklist s)
  show ?case
  proof (cases "classes_to_process s \<noteq> [] \<and> total_tokens s < MAX_TOKENS g")
    case True
    have "loop_states tracer g whitelist blacklist (loop_body tracer g whitelist blacklist s) \<noteq> []"
      by (subst loop_states.simps) simp
    with True "1.IH" show ?thesis
      by (subst loop_states.simps, subst generate_loop.simps) simp
  next
    case False
    then show ?thesis
      by (subst loop_states.simps, subst generate_loop.simps) auto
  qed
qed

lemma loop_body_total_tokens:
  assumes "total_tokens s \<le> MAX_TOKENS g"
  shows "total_tokens (loop_body tracer g whitelist blacklist s) \<le> MAX_TOKENS g"
proof (cases "classes_to_process s")
  case Nil
  with assms show ?thesis
    by (simp add: loop_body_def)
next
  case (Cons c rest)
  then show ?thesis
    using assms by (cases rule: loop_body_cases [of s c rest tracer g whitelist blacklist])
      (simp_all add: visit_def)
qed

lemma loop_states_total_tokens:
  "total_tokens s \<le> MAX_TOKENS g \<Longrightarrow>
   \<forall>t \<in> set (loop_states tracer g whitelist blacklist s). total_tokens t \<le> MAX_TOKENS g"
proof (induction tracer g whitelist blacklist s rule: loop_states.induct)
  case (1 tracer g whitelist blacklist s)
  show ?case
  proof (cases "classes_to_process s \<noteq> [] \<and> total_tokens s < MAX_TOKENS g")
    case True
    with "1.IH" "1.prems" loop_body_total_tokens
    have "\<forall>t \<in> set (loop_states tracer g whitelist blacklist
                      (loop_body tracer g whitelist blacklist s)). total_tokens t \<le> MAX_TOKENS g"
      by blast
    with True "1.prems" show ?thesis
      by (subst loop_states.simps) simp
  next
    case False
    with "1.prems" show ?thesis
      by (subst loop_states.simps) auto
  qed
qed


lemma loop_body_visited_once:
  assumes "visited_once g s"
  shows "visited_once g (loop_body tracer g whitelist blacklist s)"
proof (cases "classes_to_process s")
  case Nil
  with assms show ?thesis
    by (simp add: loop_body_def)
next
  case (Cons c rest)
  then show ?thesis
    using assms by (cases rule: loop_body_cases [of s c rest tracer g whitelist blacklist])
      (auto simp: visited_once_def appended_names_def visit_def)
qed


lemma loop_body_tracer:
  "loop_body tracer g whitelist blacklist s = loop_body tracer' g whitelist blacklist s"
  by (simp add: loop_body_def hierarchy_fields Let_def split: list.splits)

lemma generate_loop_tracer:
  "generate_loop tracer g whitelist blacklist s = generate_loop tracer' g whitelist blacklist s"
proof (induction tracer g whitelist blacklist s rule: generate_loop.induct)
  case (1 tracer g whitelist blacklist s)
  show ?case
  proof (cases "classes_to_process s \<noteq> [] \<and> total_tokens s < MAX_TOKENS g")
    case True
    with "1.IH" have "generate_loop tracer g whitelist blacklist (loop_body tracer g whitelist blacklist s)
        = generate_loop tracer' g whitelist blacklist (loop_body tracer g whitelist blacklist s)"
      by simp
    also have "\<dots> = generate_loop tracer' g whitelist blacklist (loop_body tracer' g whitelist blacklist s)"
      by (simp add: loop_body_tracer [of tracer _ _ _ _ tracer'])
    finally show ?thesis
      using True by (simp add: generate_loop_continue)
  next
    case False
    then show ?thesis
      by (auto simp: generate_loop_stop)
  qed
qed


lemma loop_body_queued_from:
  assumes "queued_from g target_class s"
  shows "queued_from g target_class (loop_body tracer g whitelist blacklist s)"
proof (cases "classes_to_process s")
  case Nil
  with assms show ?thesis
    by (simp add: loop_body_def)
next
  case (Cons c rest)
  then show ?thesis
    using assms Cons by (cases rule: loop_body_cases [of s c rest tracer g whitelist blacklist])
      (auto simp: queued_from_def appended_names_def visit_def)
qed

lemma loop_states_continue:
  "classes_to_process s \<noteq> [] \<Longrightarrow> total_tokens s < MAX_TOKENS g \<Longrightarrow>
   loop_states tracer g whitelist blacklist s =
     s # loop_states tracer g whitelist blacklist (loop_body tracer g whitelist blacklist s)"
  by (simp add: loop_states.simps [of tracer g whitelist blacklist s])

lemma loop_states_stop:
  "classes_to_process s = [] \<or> MAX_TOKENS g \<le> total_tokens s \<Longrightarrow>
   loop_states tracer g whitelist blacklist s = [s]"
  by (auto simp add: loop_states.simps [of tracer g whitelist blacklist s])

lemma generate_loop_cong:
  assumes "\<And>s. loop_body tracer g whitelist blacklist s = loop_body tracer' g' whitelist' blacklist' s"
    and "MAX_TOKENS g = MAX_TOKENS g'"
  shows "generate_loop tracer g whitelist blacklist s = generate_loop tracer' g' whitelist' blacklist' s"
  using assms
proof (induction tracer g whitelist blacklist s rule: generate_loop.induct)
  case (1 tracer g whitelist blacklist s)
  show ?case
  proof (cases "classes_to_process s \<noteq> [] \<and> total_tokens s < MAX_TOKENS g")
    case True
    with "1.IH" "1.prems"
    have "generate_loop tracer g whitelist blacklist (loop_body tracer g whitelist blacklist s)
        = generate_loop tracer' g' whitelist' blacklist' (loop_body tracer g whitelist blacklist s)"
      by blast
    with True "1.prems" show ?thesis
      by (simp add: generate_loop_continue)
  next
    case False
    with "1.prems"(2) show ?thesis
      by (auto simp: generate_loop_stop)
  qed
qed

lemma hierarchy_of_content:
  assumes "get_class_content g c \<noteq> []"
  shows "get_class_hierarchy_with tracer g c =
     \<lparr>superclasses =
        (case search_extends (get_class_content g c) of None \<Rightarrow> [] | Some name \<Rightarrow> [name]),
      interfaces =
        (case search_implements (get_class_content g c) of
           None \<Rightarrow> []
         | Some names \<Rightarrow> map strip (split_on (CHR '','') names)),
      inner_classes = [],
      referenced_classes = set_iter g (findall_refs (get_class_content g c)),
      using_classes = (case tracer c of None \<Rightarrow> {} | Some used \<Rightarrow> used)\<rparr>"
  using assms
  by (auto simp: get_class_content_def get_class_hierarchy_with_def split: option.splits if_splits)

lemma edges_of_content:
  assumes "get_class_content g c \<noteq> []"
  shows "edges g c =
     (case search_extends (get_class_content g c) of None \<Rightarrow> [] | Some name \<Rightarrow> [name])
     @ (case search_implements (get_class_content g c) of
          None \<Rightarrow> []
        | Some names \<Rightarrow> map strip (split_on (CHR '','') names))
     @ set_iter g (findall_refs (get_class_content g c))"
  by (simp add: edges_def get_class_hierarchy_def hierarchy_of_content [OF assms])

lemma set_iter_update_content:
  "get_class_content (g\<lparr>set_iter := f\<rparr>) c = get_class_content g c"
  by (simp add: get_class_content_def find_class_file_def cong: option.case_cong if_cong)

lemma set_iter_update_filter:
  "matches_package_filter (g\<lparr>set_iter := f\<rparr>) c whitelist blacklist
     = matches_package_filter g c whitelist blacklist"
  by (simp add: matches_package_filter_def blacklist_loop_iff whitelist_loop_iff)

lemma set_iter_update_loop_body:
  assumes "\<forall>name. get_class_content g name \<noteq> [] \<longrightarrow>
      f (findall_refs (get_class_content g name)) = set_iter g (findall_refs (get_class_content g name))"
  shows "loop_body tracer (g\<lparr>set_iter := f\<rparr>) whitelist blacklist s
       = loop_body tracer g whitelist blacklist s"
proof (cases "classes_to_process s")
  case Nil
  then show ?thesis
    by (simp add: loop_body_def)
next
  case (Cons c rest)
  have e: "get_class_content g c \<noteq> [] \<Longrightarrow> edges (g\<lparr>set_iter := f\<rparr>) c = edges g c"
    using assms by (simp add: edges_of_content set_iter_update_content)
  have b: "body (g\<lparr>set_iter := f\<rparr>) c = body g c"
    by (simp add: body_def set_iter_update_content)
  from Cons show ?thesis
  proof (cases rule: loop_body_cases [of s c rest tracer g whitelist blacklist])
    case processed
    with Cons show ?thesis
      by (simp add: loop_body_processed)
  next
    case filtered
    with Cons show ?thesis
      by (simp add: loop_body_filtered set_iter_update_filter)
  next
    case no_content
    with Cons show ?thesis
      by (simp add: loop_body_no_content set_iter_update_filter set_iter_update_content)
  next
    case over_budget
    with Cons show ?thesis
      by (simp add: loop_body_over_budget set_iter_update_filter set_iter_update_content b)
  next
    case appended
    with Cons show ?thesis
      by (simp add: loop_body_appended set_iter_update_filter set_iter_update_content b e)
  qed
qed

lemma context_of_final_state:
  "generate_context g target_class whitelist blacklist =
     join [newline, newline] (context_parts (final_state tracer g target_class whitelist blacklist))"
  by (simp add: generate_context_def generate_context_with_def final_state_def
      generate_loop_tracer [of tracer _ _ _ _ "\<lambda>name. Some (trace_usage g name)"])

text \<open>A run that appends its target, which mentions no other class.\<close>

lemma run_single:
  assumes "matches_package_filter g c whitelist blacklist" and "get_class_content g c \<noteq> []"
    and "calculate_tokens (body g c) \<le> MAX_TOKENS g" and "edges g c = []" and "0 < MAX_TOKENS g"
  shows "generate_loop tracer g whitelist blacklist (initial_state c) =
     \<lparr>context_parts = [body g c], processed_classes = {c}, classes_to_process = [],
      total_tokens = calculate_tokens (body g c), visits = [(c, Appended)]\<rparr>"
    (is "_ = ?s1")
proof -
  have step: "loop_body tracer g whitelist blacklist (initial_state c) = ?s1"
    using assms by (simp add: loop_body_appended [where c = c and rest = "[]"] initial_state_def)
  have "generate_loop tracer g whitelist blacklist (initial_state c) =
      generate_loop tracer g whitelist blacklist
        (loop_body tracer g whitelist blacklist (initial_state c))"
    using assms(5) by (intro generate_loop_continue) (simp_all add: initial_state_def)
  also have "\<dots> = generate_loop tracer g whitelist blacklist ?s1"
    by (simp only: step)
  also have "\<dots> = ?s1"
    by (rule generate_loop_stop) simp
  finally show ?thesis .
qed

text \<open>A run that skips its target at the filter.\<close>

lemma run_filtered:
  assumes "\<not> matches_package_filter g c whitelist blacklist" and "0 < MAX_TOKENS g"
  shows "generate_loop tracer g whitelist blacklist (initial_state c) =
     \<lparr>context_parts = [], processed_classes = {}, classes_to_process = [],
      total_tokens = 0, visits = [(c, Filtered)]\<rparr>"
    (is "_ = ?s1")
proof -
  have step: "loop_body tracer g whitelist blacklist (initial_state c) = ?s1"
    using assms by (simp add: loop_body_filtered [where c = c and rest = "[]"] initial_state_def visit_def)
  have "generate_loop tracer g whitelist blacklist (initial_state c) =
      generate_loop tracer g whitelist blacklist
        (loop_body tracer g whitelist blacklist (initial_state c))"
    using assms(2) by (intro generate_loop_continue) (simp_all add: initial_state_def)
  also have "\<dots> = generate_loop tracer g whitelist blacklist ?s1"
    by (simp only: step)
  also have "\<dots> = ?s1"
    by (rule generate_loop_stop) simp
  finally show ?thesis .
qed


section \<open>The corpus, evaluated\<close>

text \<open>
  What the methods return on the classes of the corpus, and the runs of the loop used in
  the examples below.
\<close>

lemmas char_defs = code_of_def newline_def is_space_def is_ident_def is_dotted_def is_iface_char_def
  is_word_def is_bracket_def lower_char_def lower_def upper_chars_def lower_chars_def sublist_code
lemmas corpus_defs = corpus_with_def corpus_def corpus_files_def corpus_text_def
lemmas float_defs = int_times_1_2_def round_double_def bit_length.simps Let_def

lemma corpus_MAX_TOKENS: "MAX_TOKENS (corpus_with m f) = m"
  by (simp add: corpus_defs)

lemma corpus_no_filter: "matches_package_filter g n [] []"
  by (simp add: matches_package_filter_def)

lemma corpus_content:
  "get_class_content (corpus_with m f) ''x.A'' = ''class A { x.B b; x.C c; }''"
  "get_class_content (corpus_with m f) ''x.B'' = ''class B { x.A a; }''"
  "get_class_content (corpus_with m f) ''x.C'' = ''class C { }''"
  "get_class_content (corpus_with m f) ''c'' = ''class C { }''"
  by (simp_all add: get_class_content_def find_class_file_def corpus_defs char_defs)

lemma corpus_optimized:
  "optimize_code_tokens ''class A { x.B b; x.C c; }'' = ''class A{x.B b; x.C c;}''"
  "optimize_code_tokens ''class B { x.A a; }'' = ''class B{x.A a;}''"
  "optimize_code_tokens ''class C { }'' = ''class C{}''"
  by (simp_all add: optimize_code_tokens_def strip_def char_defs)

lemma corpus_body:
  "body (corpus_with m f) ''x.A'' = ''class A{x.B b; x.C c;}''"
  "body (corpus_with m f) ''x.B'' = ''class B{x.A a;}''"
  "body (corpus_with m f) ''x.C'' = ''class C{}''"
  "body (corpus_with m f) ''c'' = ''class C{}''"
  by (simp_all add: body_def corpus_content corpus_optimized)

lemma corpus_counts:
  "length (findall_words ''class A{x.B b; x.C c;}'')
     + length (findall_brackets ''class A{x.B b; x.C c;}'')
     + length (findall_spaces ''class A{x.B b; x.C c;}'') = 20"
  "length (findall_words ''class B{x.A a;}'')
     + length (findall_brackets ''class B{x.A a;}'')
     + length (findall_spaces ''class B{x.A a;}'') = 13"
  "length (findall_words ''class C{}'')
     + length (findall_brackets ''class C{}'')
     + length (findall_spaces ''class C{}'') = 7"
  by (simp_all add: findall_brackets_def char_defs)

lemma int_times_1_2_values:
  "int_times_1_2 20 = 24" "int_times_1_2 13 = 15" "int_times_1_2 7 = 8"
  by (simp_all add: float_defs)

lemma corpus_tokens:
  "calculate_tokens ''class A{x.B b; x.C c;}'' = 24"
  "calculate_tokens ''class B{x.A a;}'' = 15"
  "calculate_tokens ''class C{}'' = 8"
  unfolding calculate_tokens_def Let_def corpus_counts
  by (rule int_times_1_2_values)+

lemma corpus_edges:
  "edges (corpus_with m f) ''x.A'' = f [''x.B'', ''x.C'']"
  "edges (corpus_with m f) ''x.B'' = f [''x.A'']"
  "edges (corpus_with m f) ''x.C'' = f []"
  "edges (corpus_with m f) ''c'' = f []"
  by (simp_all add: edges_def get_class_hierarchy_def get_class_hierarchy_with_def
      find_class_file_def corpus_defs char_defs)

lemmas corpus_facts = corpus_MAX_TOKENS corpus_no_filter corpus_content corpus_body corpus_tokens
  corpus_edges

lemma corpus_eq: "corpus = corpus_with 100000 remdups"
  by (simp add: corpus_with_def corpus_def)

lemma corpus_filters:
  "matches_package_filter (corpus_with m f) ''x.C'' [] [''x'']"
  "\<not> matches_package_filter (corpus_with m f) (package_of ''x.C'') [] [''x'']"
  "\<not> matches_package_filter (corpus_with m f) ''x.C'' [''x''] []"
  "matches_package_filter (corpus_with m f) (package_of ''x.C'') [''x''] []"
  by (simp_all add: matches_package_filter_def package_of_def corpus_defs)

lemma corpus_contents:
  "get_class_content corpus name \<in>
     {[], ''class A { x.B b; x.C c; }'', ''class B { x.A a; }'', ''class C { }''}"
proof (cases "find_class_file corpus name")
  case None
  then show ?thesis
    by (simp add: get_class_content_def)
next
  case (Some path)
  then have "name \<in> candidates corpus"
    by (rule find_class_file_candidates)
  have "path \<in> snd ` set corpus_files"
  proof (cases "map_of corpus_files name")
    case None
    with Some obtain x where
      "find (\<lambda>(potential_class_name, java_file).
           sublist (lower name) (lower potential_class_name)) corpus_files = Some x"
      and "path = snd x"
      by (auto simp: find_class_file_def corpus_def split: option.splits)
    then show ?thesis
      by (auto dest: find_SomeD)
  next
    case (Some p)
    with \<open>find_class_file corpus name = Some path\<close> have "p = path"
      by (simp add: find_class_file_def corpus_def)
    with Some show ?thesis
      by (metis map_of_SomeD snd_conv image_eqI)
  qed
  then have "path \<in> {''decompiled_output/x/A.java'', ''decompiled_output/x/B.java'', ''decompiled_output/x/C.java''}"
    by (simp add: corpus_files_def)
  with Some show ?thesis
    by (auto simp: get_class_content_def corpus_def corpus_text_def)
qed

lemma orders_are_permutations:
  "distinct (remdups xs) \<and> set (remdups xs) = set xs"
  "distinct (reversed_order xs) \<and> set (reversed_order xs) = set xs"
  by (simp_all add: reversed_order_def)

text \<open>The run from \<open>x.A\<close> with room for everything: the cycle between \<open>x.A\<close> and \<open>x.B\<close> ends
  at the second visit of \<open>x.A\<close>.\<close>

lemma run_A:
  "final_state tracer (corpus_with 100000 remdups) ''x.A'' None None =
     \<lparr>context_parts = [''class A{x.B b; x.C c;}'', ''class B{x.A a;}'', ''class C{}''],
      processed_classes = {''x.A'', ''x.B'', ''x.C''},
      classes_to_process = [],
      total_tokens = 47,
      visits = [(''x.A'', Appended), (''x.B'', Appended), (''x.C'', Appended),
                (''x.A'', Already_processed)]\<rparr>"
proof -
  let ?g = "corpus_with 100000 remdups"
  let ?s1 = "\<lparr>context_parts = [''class A{x.B b; x.C c;}''], processed_classes = {''x.A''},
      classes_to_process = [''x.B'', ''x.C''], total_tokens = 24, visits = [(''x.A'', Appended)]\<rparr>"
  let ?s2 = "\<lparr>context_parts = [''class A{x.B b; x.C c;}'', ''class B{x.A a;}''],
      processed_classes = {''x.A'', ''x.B''},
      classes_to_process = [''x.C'', ''x.A''], total_tokens = 39,
      visits = [(''x.A'', Appended), (''x.B'', Appended)]\<rparr>"
  let ?s3 = "\<lparr>context_parts = [''class A{x.B b; x.C c;}'', ''class B{x.A a;}'', ''class C{}''],
      processed_classes = {''x.A'', ''x.B'', ''x.C''},
      classes_to_process = [''x.A''], total_tokens = 47,
      visits = [(''x.A'', Appended), (''x.B'', Appended), (''x.C'', Appended)]\<rparr>"
  let ?s4 = "\<lparr>context_parts = [''class A{x.B b; x.C c;}'', ''class B{x.A a;}'', ''class C{}''],
      processed_classes = {''x.A'', ''x.B'', ''x.C''},
      classes_to_process = [], total_tokens = 47,
      visits = [(''x.A'', Appended), (''x.B'', Appended), (''x.C'', Appended),
                (''x.A'', Already_processed)]\<rparr>"
  have 1: "loop_body tracer ?g [] [] (initial_state ''x.A'') = ?s1"
    by (simp add: loop_body_appended [where c = "''x.A''" and rest = "[]"] initial_state_def corpus_facts)
  have 2: "loop_body tracer ?g [] [] ?s1 = ?s2"
    by (simp add: loop_body_appended [where c = "''x.B''" and rest = "[''x.C'']"] corpus_facts insert_commute)
  have 3: "loop_body tracer ?g [] [] ?s2 = ?s3"
    by (simp add: loop_body_appended [where c = "''x.C''" and rest = "[''x.A'']"] corpus_facts insert_commute)
  have 4: "loop_body tracer ?g [] [] ?s3 = ?s4"
    by (simp add: loop_body_processed [where c = "''x.A''" and rest = "[]"] visit_def)
  have "generate_loop tracer ?g [] [] (initial_state ''x.A'') = generate_loop tracer ?g [] [] ?s1"
    by (simp add: generate_loop_continue initial_state_def corpus_facts 1 [unfolded initial_state_def])
  also have "\<dots> = generate_loop tracer ?g [] [] ?s2"
    by (simp add: generate_loop_continue corpus_facts 2)
  also have "\<dots> = generate_loop tracer ?g [] [] ?s3"
    by (simp add: generate_loop_continue corpus_facts 3)
  also have "\<dots> = generate_loop tracer ?g [] [] ?s4"
    by (simp add: generate_loop_continue corpus_facts 4)
  also have "\<dots> = ?s4"
    by (simp add: generate_loop_stop)
  finally show ?thesis
    by (simp add: final_state_def or_empty_def)
qed

text \<open>The same run when sets iterate backwards.\<close>

lemma run_reversed:
  "generate_loop tracer (corpus_with 100000 reversed_order) [] [] (initial_state ''x.A'') =
     \<lparr>context_parts = [''class A{x.B b; x.C c;}'', ''class C{}'', ''class B{x.A a;}''],
      processed_classes = {''x.A'', ''x.C'', ''x.B''},
      classes_to_process = [],
      total_tokens = 47,
      visits = [(''x.A'', Appended), (''x.C'', Appended), (''x.B'', Appended),
                (''x.A'', Already_processed)]\<rparr>"
proof -
  let ?g = "corpus_with 100000 reversed_order"
  let ?s1 = "\<lparr>context_parts = [''class A{x.B b; x.C c;}''], processed_classes = {''x.A''},
      classes_to_process = [''x.C'', ''x.B''], total_tokens = 24, visits = [(''x.A'', Appended)]\<rparr>"
  let ?s2 = "\<lparr>context_parts = [''class A{x.B b; x.C c;}'', ''class C{}''],
      processed_classes = {''x.A'', ''x.C''},
      classes_to_process = [''x.B''], total_tokens = 32,
      visits = [(''x.A'', Appended), (''x.C'', Appended)]\<rparr>"
  let ?s3 = "\<lparr>context_parts = [''class A{x.B b; x.C c;}'', ''class C{}'', ''class B{x.A a;}''],
      processed_classes = {''x.A'', ''x.C'', ''x.B''},
      classes_to_process = [''x.A''], total_tokens = 47,
      visits = [(''x.A'', Appended), (''x.C'', Appended), (''x.B'', Appended)]\<rparr>"
  let ?s4 = "\<lparr>context_parts = [''class A{x.B b; x.C c;}'', ''class C{}'', ''class B{x.A a;}''],
      processed_classes = {''x.A'', ''x.C'', ''x.B''},
      classes_to_process = [], total_tokens = 47,
      visits = [(''x.A'', Appended), (''x.C'', Appended), (''x.B'', Appended),
                (''x.A'', Already_processed)]\<rparr>"
  have 1: "loop_body tracer ?g [] [] (initial_state ''x.A'') = ?s1"
    by (simp add: loop_body_appended [where c = "''x.A''" and rest = "[]"] initial_state_def
        corpus_facts reversed_order_def)
  have 2: "loop_body tracer ?g [] [] ?s1 = ?s2"
    by (simp add: loop_body_appended [where c = "''x.C''" and rest = "[''x.B'']"] corpus_facts
        reversed_order_def insert_commute)
  have 3: "loop_body tracer ?g [] [] ?s2 = ?s3"
    by (simp add: loop_body_appended [where c = "''x.B''" and rest = "[]"] corpus_facts
        reversed_order_def insert_commute)
  have 4: "loop_body tracer ?g [] [] ?s3 = ?s4"
    by (simp add: loop_body_processed [where c = "''x.A''" and rest = "[]"] visit_def)
  have "generate_loop tracer ?g [] [] (initial_state ''x.A'') = generate_loop tracer ?g [] [] ?s1"
    by (simp add: generate_loop_continue initial_state_def corpus_facts 1 [unfolded initial_state_def])
  also have "\<dots> = generate_loop tracer ?g [] [] ?s2"
    by (simp add: generate_loop_continue corpus_facts 2)
  also have "\<dots> = generate_loop tracer ?g [] [] ?s3"
    by (simp add: generate_loop_continue corpus_facts 3)
  also have "\<dots> = generate_loop tracer ?g [] [] ?s4"
    by (simp add: generate_loop_continue corpus_facts 4)
  also have "\<dots> = ?s4"
    by (simp add: generate_loop_stop)
  finally show ?thesis .
qed

lemma tight_steps:
  "loop_body tracer (corpus_with 35 remdups) [] [] (initial_state ''x.A'') = tight_1"
  "loop_body tracer (corpus_with 35 remdups) [] [] tight_1 = tight_2"
  "loop_body tracer (corpus_with 35 remdups) [] [] tight_2 = tight_3"
proof -
  show "loop_body tracer (corpus_with 35 remdups) [] [] (initial_state ''x.A'') = tight_1"
    by (simp add: loop_body_appended [where c = "''x.A''" and rest = "[]"] initial_state_def
        corpus_facts tight_1_def)
  show "loop_body tracer (corpus_with 35 remdups) [] [] tight_1 = tight_2"
    by (simp add: loop_body_over_budget [where c = "''x.B''" and rest = "[''x.C'']"]
        corpus_facts tight_1_def tight_2_def visit_def)
  show "loop_body tracer (corpus_with 35 remdups) [] [] tight_2 = tight_3"
    by (simp add: loop_body_appended [where c = "''x.C''" and rest = "[]"]
        corpus_facts tight_2_def tight_3_def)
qed

lemma tight_states:
  "loop_states tracer (corpus_with 35 remdups) [] [] (initial_state ''x.A'') =
     [initial_state ''x.A'', tight_1, tight_2, tight_3]"
proof -
  let ?g = "corpus_with 35 remdups"
  have "loop_states tracer ?g [] [] tight_3 = [tight_3]"
    by (rule loop_states_stop) (simp add: tight_3_def)
  moreover have "loop_states tracer ?g [] [] tight_2 = tight_2 # loop_states tracer ?g [] [] tight_3"
    using loop_states_continue [of tight_2 ?g tracer "[]" "[]"]
    by (simp add: tight_steps) (simp add: tight_2_def corpus_facts)
  moreover have "loop_states tracer ?g [] [] tight_1 = tight_1 # loop_states tracer ?g [] [] tight_2"
    using loop_states_continue [of tight_1 ?g tracer "[]" "[]"]
    by (simp add: tight_steps) (simp add: tight_1_def corpus_facts)
  moreover have "loop_states tracer ?g [] [] (initial_state ''x.A'')
      = initial_state ''x.A'' # loop_states tracer ?g [] [] tight_1"
    using loop_states_continue [of "initial_state ''x.A''" ?g tracer "[]" "[]"]
    by (simp add: tight_steps) (simp add: initial_state_def corpus_facts)
  ultimately show ?thesis
    by simp
qed

section \<open>The budget\<close>

text \<open>
  C3. For every corpus, target class and budget, the counter \<open>total_tokens\<close> never exceeds
  \<open>MAX_TOKENS\<close>: it is within the budget when the loop has ended and in every state
  the loop goes through, so no append takes it past the ceiling.
\<close>

theorem total_tokens_within_budget:
  "total_tokens (final_state tracer g target_class whitelist blacklist) \<le> MAX_TOKENS g
   \<and> (\<forall>s \<in> set (loop_states tracer g (or_empty whitelist) (or_empty blacklist)
                   (initial_state target_class)).
        total_tokens s \<le> MAX_TOKENS g)"
proof -
  have init: "total_tokens (initial_state target_class) \<le> MAX_TOKENS g"
    by (simp add: initial_state_def)
  have "total_tokens (generate_loop tracer g (or_empty whitelist) (or_empty blacklist)
          (initial_state target_class)) \<le> MAX_TOKENS g"
    using init by (rule generate_loop_invariant) (rule loop_body_total_tokens)
  with loop_states_total_tokens [OF init] show ?thesis
    by (simp add: final_state_def)
qed

theorem total_tokens_within_budget_witness:
  "tight_1 \<in> set (loop_states no_tracer (corpus_with 35 remdups) (or_empty None) (or_empty None)
                     (initial_state ''x.A''))
   \<and> total_tokens tight_1 \<le> MAX_TOKENS (corpus_with 35 remdups)
   \<and> tight_3 \<in> set (loop_states no_tracer (corpus_with 35 remdups) (or_empty None) (or_empty None)
                     (initial_state ''x.A''))
   \<and> total_tokens tight_3 \<le> MAX_TOKENS (corpus_with 35 remdups)
   \<and> final_state no_tracer (corpus_with 35 remdups) ''x.A'' None None = tight_3
   \<and> total_tokens (final_state no_tracer (corpus_with 35 remdups) ''x.A'' None None)
       \<le> MAX_TOKENS (corpus_with 35 remdups)"
proof -
  have states: "loop_states no_tracer (corpus_with 35 remdups) (or_empty None) (or_empty None)
      (initial_state ''x.A'') = [initial_state ''x.A'', tight_1, tight_2, tight_3]"
    by (simp only: tight_states or_empty_def option.case)
  then have "last (loop_states no_tracer (corpus_with 35 remdups) (or_empty None) (or_empty None)
      (initial_state ''x.A'')) = tight_3"
    by simp
  then have final: "final_state no_tracer (corpus_with 35 remdups) ''x.A'' None None = tight_3"
    by (simp add: final_state_def loop_states_last)
  have 1: "tight_1 \<in> set (loop_states no_tracer (corpus_with 35 remdups) (or_empty None)
      (or_empty None) (initial_state ''x.A''))"
    and 3: "tight_3 \<in> set (loop_states no_tracer (corpus_with 35 remdups) (or_empty None)
      (or_empty None) (initial_state ''x.A''))"
    by (simp_all add: states)
  from total_tokens_within_budget [of no_tracer "corpus_with 35 remdups" "''x.A''" None None]
    1 3 final
  show ?thesis
    by blast
qed

section \<open>Visiting each class once\<close>

text \<open>
  C4. In every run, the names whose bodies were appended are pairwise distinct, and the
  output parts are exactly the bodies of these names, in order: a name contributes at
  most one body, however many paths of the reference graph reach it. The loop ends on
  every input, cyclic references included: \<open>generate_loop\<close> is a total function, and the
  state it returns has an empty queue or an exhausted budget. (The run \<open>run_A\<close> above
  goes through the cycle between \<open>x.A\<close> and \<open>x.B\<close>.)
\<close>

theorem appended_at_most_once:
  "distinct (appended_names (final_state tracer g target_class whitelist blacklist))
   \<and> context_parts (final_state tracer g target_class whitelist blacklist) =
       map (body g) (appended_names (final_state tracer g target_class whitelist blacklist))
   \<and> (classes_to_process (final_state tracer g target_class whitelist blacklist) = []
       \<or> MAX_TOKENS g \<le> total_tokens (final_state tracer g target_class whitelist blacklist))"
proof -
  have "visited_once g (initial_state target_class)"
    by (simp add: visited_once_def appended_names_def initial_state_def)
  then have "visited_once g (generate_loop tracer g (or_empty whitelist) (or_empty blacklist)
               (initial_state target_class))"
    by (rule generate_loop_invariant) (rule loop_body_visited_once)
  then show ?thesis
    using generate_loop_exit [of tracer g "or_empty whitelist" "or_empty blacklist"
        "initial_state target_class"]
    by (simp add: visited_once_def final_state_def)
qed

section \<open>The usage tracer\<close>

text \<open>
  C10. The context does not depend on what \<open>trace_usage\<close> returns (or on whether it
  raises): with any function in its place the result is that of \<open>generate_context\<close>. Every
  name the loop takes from the queue is the target class or a superclass, interface or
  referenced name of an appended class.
\<close>

theorem context_independent_of_trace_usage:
  "generate_context_with tracer g target_class whitelist blacklist =
     generate_context g target_class whitelist blacklist
   \<and> fst ` set (visits (final_state tracer g target_class whitelist blacklist))
       \<subseteq> insert target_class
           (\<Union>c \<in> set (appended_names (final_state tracer g target_class whitelist blacklist)).
              set (edges g c))"
proof -
  have "queued_from g target_class (initial_state target_class)"
    by (simp add: queued_from_def initial_state_def)
  then have "queued_from g target_class
      (generate_loop tracer g (or_empty whitelist) (or_empty blacklist) (initial_state target_class))"
    by (rule generate_loop_invariant) (rule loop_body_queued_from)
  then show ?thesis
    by (simp add: queued_from_def final_state_def generate_context_def generate_context_with_def
        generate_loop_tracer [of tracer _ _ _ _ "\<lambda>name. Some (trace_usage g name)"])
qed


section \<open>A class that does not fit the budget\<close>

text \<open>
  C6. When the cost of the normalized content of the class at the head of the queue
  exceeds what is left of the budget, the iteration appends nothing, adds nothing to the
  counter and pushes nothing onto the queue (the class is marked processed). When
  \<open>MAX_TOKENS\<close> is below the cost of the target class, the context is the empty string and
  the counter ends at 0.
\<close>

theorem over_budget_not_appended:
  "(classes_to_process s = c # rest \<and> c \<notin> processed_classes s
      \<and> matches_package_filter g c whitelist blacklist \<and> get_class_content g c \<noteq> []
      \<and> MAX_TOKENS g < total_tokens s + calculate_tokens (optimize_code_tokens (get_class_content g c))
    \<longrightarrow> context_parts (loop_body tracer g whitelist blacklist s) = context_parts s
        \<and> classes_to_process (loop_body tracer g whitelist blacklist s) = rest
        \<and> total_tokens (loop_body tracer g whitelist blacklist s) = total_tokens s
        \<and> c \<in> processed_classes (loop_body tracer g whitelist blacklist s))
   \<and> (MAX_TOKENS g < calculate_tokens (optimize_code_tokens (get_class_content g target_class))
    \<longrightarrow> generate_context g target_class wl bl = []
        \<and> total_tokens (final_state tracer g target_class wl bl) = 0)"
proof (intro conjI impI)
  assume a: "classes_to_process s = c # rest \<and> c \<notin> processed_classes s
      \<and> matches_package_filter g c whitelist blacklist \<and> get_class_content g c \<noteq> []
      \<and> MAX_TOKENS g < total_tokens s + calculate_tokens (optimize_code_tokens (get_class_content g c))"
  then have b: "loop_body tracer g whitelist blacklist s =
     (visit c Over_budget (s\<lparr>classes_to_process := rest\<rparr>))
       \<lparr>processed_classes := insert c (processed_classes s)\<rparr>"
    by (simp add: loop_body_over_budget body_def)
  show "context_parts (loop_body tracer g whitelist blacklist s) = context_parts s"
    and "classes_to_process (loop_body tracer g whitelist blacklist s) = rest"
    and "total_tokens (loop_body tracer g whitelist blacklist s) = total_tokens s"
    and "c \<in> processed_classes (loop_body tracer g whitelist blacklist s)"
    by (simp_all add: b visit_def)
next
  assume a: "MAX_TOKENS g < calculate_tokens (optimize_code_tokens (get_class_content g target_class))"
  let ?s0 = "initial_state target_class"
  have end_state: "context_parts (generate_loop tr g (or_empty wl) (or_empty bl) ?s0) = []
      \<and> total_tokens (generate_loop tr g (or_empty wl) (or_empty bl) ?s0) = 0" for tr
  proof (cases "0 < MAX_TOKENS g")
    case False
    then show ?thesis
      by (simp add: generate_loop_stop initial_state_def)
  next
    case True
    have q: "classes_to_process ?s0 = [target_class]"
      by (simp add: initial_state_def)
    let ?s1 = "loop_body tr g (or_empty wl) (or_empty bl) ?s0"
    have "context_parts ?s1 = [] \<and> total_tokens ?s1 = 0 \<and> classes_to_process ?s1 = []"
      using a by (cases rule: loop_body_cases [OF q, of tr g "or_empty wl" "or_empty bl"])
        (simp_all add: visit_def initial_state_def body_def)
    moreover from this have "generate_loop tr g (or_empty wl) (or_empty bl) ?s1 = ?s1"
      by (simp add: generate_loop_stop)
    moreover have "generate_loop tr g (or_empty wl) (or_empty bl) ?s0
        = generate_loop tr g (or_empty wl) (or_empty bl) ?s1"
      using True by (simp add: generate_loop_continue initial_state_def)
    ultimately show ?thesis
      by simp
  qed
  show "generate_context g target_class wl bl = []"
    using end_state by (simp add: generate_context_def generate_context_with_def final_state_def)
  show "total_tokens (final_state tracer g target_class wl bl) = 0"
    using end_state by (simp add: final_state_def)
qed

theorem over_budget_not_appended_witness:
  "context_parts (loop_body no_tracer (corpus_with 35 remdups) [] [] tight_1) = context_parts tight_1
   \<and> classes_to_process (loop_body no_tracer (corpus_with 35 remdups) [] [] tight_1) = [''x.C'']
   \<and> total_tokens (loop_body no_tracer (corpus_with 35 remdups) [] [] tight_1) = total_tokens tight_1
   \<and> ''x.B'' \<in> processed_classes (loop_body no_tracer (corpus_with 35 remdups) [] [] tight_1)
   \<and> generate_context (corpus_with 5 remdups) ''x.C'' None None = []
   \<and> total_tokens (final_state no_tracer (corpus_with 5 remdups) ''x.C'' None None) = 0"
proof -
  have 1: "classes_to_process tight_1 = ''x.B'' # [''x.C''] \<and> ''x.B'' \<notin> processed_classes tight_1
      \<and> matches_package_filter (corpus_with 35 remdups) ''x.B'' [] []
      \<and> get_class_content (corpus_with 35 remdups) ''x.B'' \<noteq> []
      \<and> MAX_TOKENS (corpus_with 35 remdups)
          < total_tokens tight_1
            + calculate_tokens (optimize_code_tokens (get_class_content (corpus_with 35 remdups) ''x.B''))"
    by (simp add: tight_1_def corpus_facts corpus_optimized)
  have 2: "MAX_TOKENS (corpus_with 5 remdups)
      < calculate_tokens (optimize_code_tokens (get_class_content (corpus_with 5 remdups) ''x.C''))"
    by (simp add: corpus_facts corpus_optimized)
  from over_budget_not_appended [of tight_1 "''x.B''" "[''x.C'']" "corpus_with 35 remdups" "[]" "[]"
      no_tracer "''x.C''" None None, THEN conjunct1, THEN mp, OF 1]
    over_budget_not_appended [of tight_1 "''x.B''" "[''x.C'']" "corpus_with 5 remdups" "[]" "[]"
      no_tracer "''x.C''" None None, THEN conjunct2, THEN mp, OF 2]
  show ?thesis
    by simp
qed

section \<open>What the filter is applied to\<close>

text \<open>
  C1, as stated, fails. The claim says the filter is evaluated on the package of the
  class and that a class is skipped exactly when its package fails the filter. The loop
  passes the class name itself. With the blacklist \<open>x\<close>, the package of \<open>x.C\<close> fails
  the filter, yet \<open>x.C\<close> is appended; with the whitelist \<open>x\<close>, the package passes, yet
  \<open>x.C\<close> is skipped.
\<close>

theorem filter_on_package_counterexample:
  "\<not> matches_package_filter corpus (package_of ''x.C'') [] [''x'']
   \<and> generate_context corpus ''x.C'' None (Some [''x'']) = ''class C{}''
   \<and> matches_package_filter corpus (package_of ''x.C'') [''x''] []
   \<and> generate_context corpus ''x.C'' (Some [''x'']) None = []"
proof -
  have "generate_loop no_tracer (corpus_with 100000 remdups) [] [''x''] (initial_state ''x.C'') =
     \<lparr>context_parts = [''class C{}''], processed_classes = {''x.C''}, classes_to_process = [],
      total_tokens = 8, visits = [(''x.C'', Appended)]\<rparr>"
    using run_single [of "corpus_with 100000 remdups" "''x.C''" "[]" "[''x'']" no_tracer]
    by (simp add: corpus_facts corpus_filters)
  moreover have "generate_loop no_tracer (corpus_with 100000 remdups) [''x''] [] (initial_state ''x.C'') =
     \<lparr>context_parts = [], processed_classes = {}, classes_to_process = [],
      total_tokens = 0, visits = [(''x.C'', Filtered)]\<rparr>"
    using run_filtered [of "corpus_with 100000 remdups" "''x.C''" "[''x'']" "[]" no_tracer]
    by (simp add: corpus_facts corpus_filters)
  ultimately show ?thesis
    by (simp add: context_of_final_state [of _ _ _ _ no_tracer] final_state_def or_empty_def
        corpus_eq corpus_filters newline_def)
qed

text \<open>
  C1, amended. The filter is evaluated on the dotted class name taken from the queue: a
  class that is not yet processed is skipped at the filter exactly when that name fails
  \<open>matches_package_filter\<close>, and then the iteration only removes it from the queue.
\<close>

theorem filter_on_class_name:
  assumes "classes_to_process s = c # rest" and "c \<notin> processed_classes s"
  shows "(loop_body tracer g whitelist blacklist s =
            visit c Filtered (s\<lparr>classes_to_process := rest\<rparr>))
         = (\<not> matches_package_filter g c whitelist blacklist)"
proof
  assume eq: "loop_body tracer g whitelist blacklist s =
            visit c Filtered (s\<lparr>classes_to_process := rest\<rparr>)"
  show "\<not> matches_package_filter g c whitelist blacklist"
  proof
    assume "matches_package_filter g c whitelist blacklist"
    with assms have "visits (loop_body tracer g whitelist blacklist s) \<noteq> visits s @ [(c, Filtered)]"
      by (cases rule: loop_body_cases [of s c rest tracer g whitelist blacklist])
        (simp_all add: visit_def)
    with eq show False
      by (simp add: visit_def)
  qed
next
  assume "\<not> matches_package_filter g c whitelist blacklist"
  with assms show "loop_body tracer g whitelist blacklist s =
            visit c Filtered (s\<lparr>classes_to_process := rest\<rparr>)"
    by (simp add: loop_body_filtered)
qed

theorem filter_on_class_name_witness:
  "loop_body no_tracer corpus [''x''] [] (initial_state ''x.C'') =
     visit ''x.C'' Filtered (initial_state ''x.C''\<lparr>classes_to_process := []\<rparr>)
   \<and> \<not> matches_package_filter corpus ''x.C'' [''x''] []
   \<and> loop_body no_tracer corpus [] [''x''] (initial_state ''x.C'') \<noteq>
     visit ''x.C'' Filtered (initial_state ''x.C''\<lparr>classes_to_process := []\<rparr>)
   \<and> matches_package_filter corpus ''x.C'' [] [''x'']"
  using filter_on_class_name [of "initial_state ''x.C''" "''x.C''" "[]" no_tracer corpus "[''x'']" "[]"]
    filter_on_class_name [of "initial_state ''x.C''" "''x.C''" "[]" no_tracer corpus "[]" "[''x'']"]
  by (simp add: initial_state_def corpus_eq corpus_filters)

section \<open>Finding the file of a class\<close>




section \<open>The order of the output\<close>

text \<open>
  C9, as stated, fails. The referenced names are kept in a Python set, and the queue is
  extended in the iteration order of that set, which the corpus does not determine. On
  the same corpus and target, the two iteration orders \<open>remdups\<close> and \<open>reversed_order\<close>
  give outputs in different orders, and with the second the names \<open>x.B\<close>, \<open>x.C\<close>
  discovered in this order are expanded as \<open>x.C\<close>, \<open>x.B\<close>.
\<close>

theorem output_order_counterexample:
  "generate_context (corpus_with 100000 remdups) ''x.A'' None None =
     ''class A{x.B b; x.C c;}\<newline>\<newline>class B{x.A a;}\<newline>\<newline>class C{}''
   \<and> generate_context (corpus_with 100000 reversed_order) ''x.A'' None None =
     ''class A{x.B b; x.C c;}\<newline>\<newline>class C{}\<newline>\<newline>class B{x.A a;}''
   \<and> findall_refs (get_class_content (corpus_with 100000 reversed_order) ''x.A'') = [''x.B'', ''x.C'']"
proof -
  have "context_parts (final_state no_tracer (corpus_with 100000 remdups) ''x.A'' None None)
      = [''class A{x.B b; x.C c;}'', ''class B{x.A a;}'', ''class C{}'']"
    by (simp add: run_A)
  then have 1: "generate_context (corpus_with 100000 remdups) ''x.A'' None None =
     ''class A{x.B b; x.C c;}\<newline>\<newline>class B{x.A a;}\<newline>\<newline>class C{}''"
    by (simp add: context_of_final_state [of _ _ _ _ no_tracer] newline_def)
  have "context_parts (final_state no_tracer (corpus_with 100000 reversed_order) ''x.A'' None None)
      = [''class A{x.B b; x.C c;}'', ''class C{}'', ''class B{x.A a;}'']"
    by (simp add: final_state_def or_empty_def run_reversed)
  then have 2: "generate_context (corpus_with 100000 reversed_order) ''x.A'' None None =
     ''class A{x.B b; x.C c;}\<newline>\<newline>class C{}\<newline>\<newline>class B{x.A a;}''"
    by (simp add: context_of_final_state [of _ _ _ _ no_tracer] newline_def)
  have 3: "findall_refs ''class A { x.B b; x.C c; }'' = [''x.B'', ''x.C'']"
    by (simp add: char_defs)
  from 1 2 3 show ?thesis
    by (simp only: corpus_content)
qed

text \<open>
  C9, amended. Two runs on the same corpus, target and filters produce the same output
  when the sets of referenced names of the classes with content iterate in the same
  order in both. An appended class puts on the queue its superclass, then its interfaces
  in declared order, then its referenced names in the iteration order of their set.
\<close>

theorem output_follows_set_order:
  "((\<forall>name. get_class_content g name \<noteq> [] \<longrightarrow>
        f (findall_refs (get_class_content g name))
          = set_iter g (findall_refs (get_class_content g name)))
    \<longrightarrow> generate_context (g\<lparr>set_iter := f\<rparr>) target_class whitelist blacklist
          = generate_context g target_class whitelist blacklist)
   \<and> (classes_to_process s = c # rest \<and> c \<notin> processed_classes s
        \<and> matches_package_filter g c wl bl \<and> get_class_content g c \<noteq> []
        \<and> total_tokens s + calculate_tokens (optimize_code_tokens (get_class_content g c))
            \<le> MAX_TOKENS g
    \<longrightarrow> classes_to_process (loop_body tracer g wl bl s) =
          rest
          @ (case search_extends (get_class_content g c) of None \<Rightarrow> [] | Some name \<Rightarrow> [name])
          @ (case search_implements (get_class_content g c) of
               None \<Rightarrow> []
             | Some names \<Rightarrow> map strip (split_on (CHR '','') names))
          @ set_iter g (findall_refs (get_class_content g c)))"
proof (intro conjI impI)
  assume a: "\<forall>name. get_class_content g name \<noteq> [] \<longrightarrow>
        f (findall_refs (get_class_content g name))
          = set_iter g (findall_refs (get_class_content g name))"
  have "generate_loop no_tracer (g\<lparr>set_iter := f\<rparr>) (or_empty whitelist) (or_empty blacklist)
          (initial_state target_class)
      = generate_loop no_tracer g (or_empty whitelist) (or_empty blacklist)
          (initial_state target_class)"
    by (rule generate_loop_cong) (simp_all add: set_iter_update_loop_body [OF a])
  then show "generate_context (g\<lparr>set_iter := f\<rparr>) target_class whitelist blacklist
          = generate_context g target_class whitelist blacklist"
    by (simp add: context_of_final_state [of _ _ _ _ no_tracer] final_state_def)
next
  assume "classes_to_process s = c # rest \<and> c \<notin> processed_classes s
        \<and> matches_package_filter g c wl bl \<and> get_class_content g c \<noteq> []
        \<and> total_tokens s + calculate_tokens (optimize_code_tokens (get_class_content g c))
            \<le> MAX_TOKENS g"
  then show "classes_to_process (loop_body tracer g wl bl s) =
          rest
          @ (case search_extends (get_class_content g c) of None \<Rightarrow> [] | Some name \<Rightarrow> [name])
          @ (case search_implements (get_class_content g c) of
               None \<Rightarrow> []
             | Some names \<Rightarrow> map strip (split_on (CHR '','') names))
          @ set_iter g (findall_refs (get_class_content g c))"
    by (simp add: loop_body_appended body_def edges_of_content)
qed

theorem output_follows_set_order_witness:
  "generate_context (corpus\<lparr>set_iter := other_order\<rparr>) ''x.A'' None None
     = generate_context corpus ''x.A'' None None
   \<and> other_order \<noteq> set_iter corpus
   \<and> classes_to_process (loop_body no_tracer corpus [] [] (initial_state ''x.A''))
       = [''x.B'', ''x.C'']"
proof -
  have h1: "\<forall>name. get_class_content corpus name \<noteq> [] \<longrightarrow>
        other_order (findall_refs (get_class_content corpus name))
          = set_iter corpus (findall_refs (get_class_content corpus name))"
  proof (intro allI impI)
    fix name
    assume "get_class_content corpus name \<noteq> []"
    with corpus_contents [of name]
    have "get_class_content corpus name \<in>
       {''class A { x.B b; x.C c; }'', ''class B { x.A a; }'', ''class C { }''}"
      by simp
    then have "length (findall_refs (get_class_content corpus name)) \<le> 2"
      by (auto simp: char_defs)
    then show "other_order (findall_refs (get_class_content corpus name))
          = set_iter corpus (findall_refs (get_class_content corpus name))"
      by (simp add: other_order_def corpus_def)
  qed
  have content: "get_class_content corpus ''x.A'' = ''class A { x.B b; x.C c; }''"
    by (simp only: corpus_eq corpus_content)
  have h2: "classes_to_process (initial_state ''x.A'') = ''x.A'' # []
        \<and> ''x.A'' \<notin> processed_classes (initial_state ''x.A'')
        \<and> matches_package_filter corpus ''x.A'' [] [] \<and> get_class_content corpus ''x.A'' \<noteq> []
        \<and> total_tokens (initial_state ''x.A'')
            + calculate_tokens (optimize_code_tokens (get_class_content corpus ''x.A''))
            \<le> MAX_TOKENS corpus"
    by (simp add: initial_state_def content corpus_no_filter corpus_optimized corpus_tokens)
      (simp add: corpus_def)
  have edges: "[]
          @ (case search_extends (get_class_content corpus ''x.A'') of
               None \<Rightarrow> [] | Some name \<Rightarrow> [name])
          @ (case search_implements (get_class_content corpus ''x.A'') of
               None \<Rightarrow> []
             | Some names \<Rightarrow> map strip (split_on (CHR '','') names))
          @ set_iter corpus (findall_refs (get_class_content corpus ''x.A''))
        = [''x.B'', ''x.C'']"
    unfolding content by (simp add: char_defs corpus_def)
  have "generate_context (corpus\<lparr>set_iter := other_order\<rparr>) ''x.A'' None None
     = generate_context corpus ''x.A'' None None"
    using h1 by (rule output_follows_set_order [THEN conjunct1, THEN mp])
  moreover have "other_order [''a'', ''b'', ''c''] \<noteq> set_iter corpus [''a'', ''b'', ''c'']"
    by (simp add: other_order_def corpus_def)
  then have "other_order \<noteq> set_iter corpus"
    by auto
  moreover have "classes_to_process (loop_body no_tracer corpus [] [] (initial_state ''x.A''))
       = [''x.B'', ''x.C'']"
    using output_follows_set_order [THEN conjunct2, THEN mp, OF h2, of no_tracer]
    by (simp only: edges)
  ultimately show ?thesis
    by simp
qed

section \<open>Normalizing a class body\<close>

text \<open>
  The first substitution of \<open>optimize_code_tokens\<close> turns every run of whitespace, line
  breaks included, into one space. No newline is left for the pattern of line comments,
  which ends in a newline: on every input that substitution changes nothing.
\<close>

lemma is_space_newline: "is_space newline"
  by (simp add: is_space_def newline_def code_of_def)

lemma sub_spaces_no_newline: "newline \<notin> set (sub_spaces code)"
proof (induction code rule: sub_spaces.induct)
  case 1
  show ?case by simp
next
  case (2 c cs)
  then show ?case
    using is_space_newline by (auto simp: newline_def)
qed

lemma sub_brace_no_newline:
  "newline \<notin> set code \<Longrightarrow> b \<noteq> newline \<Longrightarrow> newline \<notin> set (sub_brace b code)"
proof (induction b code rule: sub_brace.induct)
  case (1 b)
  show ?case by simp
next
  case (2 b c cs)
  show ?case
  proof (cases "dropWhile is_space (c # cs)")
    case Nil
    with 2 show ?thesis
      by simp
  next
    case (Cons d ds)
    have "set (dropWhile is_space ds) \<subseteq> set ds"
      by (rule set_dropWhileD [THEN subsetI])
    moreover have "set (d # ds) \<subseteq> set (c # cs)"
      by (metis Cons set_dropWhileD subsetI)
    ultimately have "newline \<notin> set (dropWhile is_space ds)"
      using "2.prems"(1) by auto
    with 2 Cons show ?thesis
      by (cases "d = b") simp_all
  qed
qed

lemma sub_line_comments_without_newline:
  "newline \<notin> set code \<Longrightarrow> sub_line_comments code = code"
proof (induction code rule: sub_line_comments.induct)
  case 1
  show ?case by simp
next
  case (2 c cs)
  have "set (drop 2 (c # cs)) \<subseteq> set (c # cs)"
    by (rule set_drop_subset)
  with "2.prems" have "\<forall>x \<in> set (drop 2 (c # cs)). x \<noteq> newline"
    by auto
  then have nil: "dropWhile (\<lambda>x. x \<noteq> newline) (drop 2 (c # cs)) = []"
    by (simp only: dropWhile_eq_Nil_conv)
  from "2.prems" have rest: "newline \<notin> set cs"
    by simp
  show ?case
  proof (cases "prefix ''//'' (c # cs)")
    case True
    from "2.IH"(1) [OF True nil rest] have "sub_line_comments cs = cs" .
    with True nil show ?thesis
      by (simp only: sub_line_comments.simps if_True list.case)
  next
    case False
    from "2.IH"(3) [OF False rest] have "sub_line_comments cs = cs" .
    with False show ?thesis
      by (simp only: sub_line_comments.simps if_False)
  qed
qed

lemma line_comments_are_kept:
  "sub_line_comments (sub_brace (CHR ''}'') (sub_brace (CHR ''{'') (sub_spaces code)))
     = sub_brace (CHR ''}'') (sub_brace (CHR ''{'') (sub_spaces code))"
  by (intro sub_line_comments_without_newline sub_brace_no_newline sub_spaces_no_newline)
    (simp_all add: newline_def)

text \<open>
  C7. The claim says the normalization strips line comments as well as block comments.
  On a body with a line comment the comment stays, and the code of the next line now
  follows it on the same line.
\<close>

theorem line_comment_survives:
  "optimize_code_tokens ''int x; // note\<newline>int y;'' = ''int x; // note int y;''"
  by (simp add: optimize_code_tokens_def strip_def code_of_def newline_def is_space_def)

section \<open>The token estimate\<close>

text \<open>The counts of \<open>calculate_tokens\<close> are the counts of the specification.\<close>

lemma count_runs_skip: "\<not> P c \<Longrightarrow> count_runs P (c # cs) = count_runs P cs"
  by (cases cs) simp_all

lemma count_runs_run: "P c \<Longrightarrow> count_runs P (c # cs) = Suc (count_runs P (dropWhile P cs))"
proof (induction cs arbitrary: c)
  case Nil
  then show ?case by simp
next
  case (Cons d ds)
  then show ?case
    by (cases "P d") (simp_all add: count_runs_skip)
qed

lemma length_findall_spaces: "length (findall_spaces text) = count_runs is_space text"
  by (induction "text" rule: findall_spaces.induct) (simp_all add: count_runs_run count_runs_skip)

lemma filter_symbol_run:
  "is_word c \<Longrightarrow> filter is_symbol (c # cs) = filter is_symbol (dropWhile is_word cs)"
proof -
  assume "is_word c"
  have "filter is_symbol (takeWhile is_word cs) = []"
    by (auto simp: filter_empty_conv is_symbol_def dest: set_takeWhileD)
  then have "filter is_symbol (takeWhile is_word cs @ dropWhile is_word cs)
      = filter is_symbol (dropWhile is_word cs)"
    by (simp only: filter_append append_Nil)
  with \<open>is_word c\<close> show ?thesis
    by (simp add: is_symbol_def)
qed

lemma length_findall_words: "length (findall_words text) = word_count text"
proof (induction "text" rule: findall_words.induct)
  case 1
  show ?case by (simp add: word_count_def)
next
  case (2 c cs)
  show ?case
  proof (cases "is_word c")
    case True
    with 2 show ?thesis
      by (simp add: word_count_def count_runs_run filter_symbol_run del: filter.simps)
  next
    case False
    with 2 show ?thesis
      by (simp add: word_count_def count_runs_skip is_symbol_def)
  qed
qed

lemma count_runs_Cons: "count_runs P cs \<le> count_runs P (c # cs)"
  by (cases cs) simp_all

lemma count_runs_prepend: "count_runs P text \<le> count_runs P (before @ text)"
proof (induction before)
  case Nil
  show ?case by simp
next
  case (Cons c before)
  then show ?case
    using count_runs_Cons [of P "before @ text" c] by simp
qed

lemma count_runs_append: "count_runs P text \<le> count_runs P (text @ after)"
proof (induction P "text" rule: count_runs.induct)
  case (1 P)
  show ?case by simp
next
  case (2 P c)
  show ?case
    by (cases "P c") (simp_all add: count_runs_run)
next
  case (3 P c d cs)
  then show ?case by simp
qed

lemma count_runs_extend: "count_runs P text \<le> count_runs P (before @ text @ after)"
  using count_runs_append [of P "text" after] count_runs_prepend [of P "text @ after" before]
  by simp

text \<open>
  The bit length and the rounding to a double: the rounded value stays between the
  powers of two around the number, and rounding is monotone.
\<close>

lemma bit_length_0: "bit_length 0 = 0"
  by (simp add: bit_length.simps)

lemma bit_length_pos: "0 < n \<Longrightarrow> bit_length n = Suc (bit_length (n div 2))"
  by (subst bit_length.simps) simp

lemma bit_length_upper: "n < 2 ^ bit_length n"
proof (induction n rule: bit_length.induct)
  case (1 n)
  show ?case
  proof (cases "n = 0")
    case True
    then show ?thesis by (simp add: bit_length_0)
  next
    case False
    with 1 have "n div 2 < 2 ^ bit_length (n div 2)"
      by simp
    then have "n < 2 * 2 ^ bit_length (n div 2)"
      by linarith
    with False show ?thesis
      by (simp add: bit_length_pos)
  qed
qed

lemma bit_length_lower: "0 < n \<Longrightarrow> 2 ^ (bit_length n - 1) \<le> n"
proof (induction n rule: bit_length.induct)
  case (1 n)
  show ?case
  proof (cases "n div 2 = 0")
    case True
    with "1.prems" show ?thesis
      by (simp add: bit_length_pos bit_length_0)
  next
    case False
    with 1 have "2 ^ (bit_length (n div 2) - 1) \<le> n div 2"
      by simp
    moreover from False have "bit_length (n div 2) = Suc (bit_length (n div 2) - 1)"
      by (simp add: bit_length_pos)
    ultimately have "2 ^ bit_length (n div 2) \<le> 2 * (n div 2)"
      by (metis power_Suc mult_le_mono2)
    also have "\<dots> \<le> n"
      by simp
    finally show ?thesis
      using "1.prems" by (simp add: bit_length_pos)
  qed
qed

lemma bit_length_mono: "m \<le> n \<Longrightarrow> bit_length m \<le> bit_length n"
proof (rule ccontr)
  assume le: "m \<le> n" and "\<not> bit_length m \<le> bit_length n"
  then have less: "bit_length n \<le> bit_length m - 1" and "0 < bit_length m"
    by simp_all
  then have "0 < m"
    by (cases "m = 0") (simp_all add: bit_length_0)
  have "n < 2 ^ bit_length n"
    by (rule bit_length_upper)
  also from less have "(2::nat) ^ bit_length n \<le> 2 ^ (bit_length m - 1)"
    by (simp add: power_increasing)
  also from \<open>0 < m\<close> have "\<dots> \<le> m"
    by (rule bit_length_lower)
  finally show False
    using le by simp
qed

text \<open>The parts of a number with more than 53 bits.\<close>

lemma round_double_exact: "bit_length p \<le> 53 \<Longrightarrow> round_double p = p"
  by (simp add: round_double_def)

lemma round_double_parts:
  assumes "53 < bit_length p"
  defines "s \<equiv> bit_length p - 53"
  shows "round_double p = p div 2 ^ s * 2 ^ s \<or> round_double p = (p div 2 ^ s + 1) * 2 ^ s"
    and "2 ^ 52 \<le> p div 2 ^ s" and "p div 2 ^ s < 2 ^ 53"
proof -
  from assms(1) show "round_double p = p div 2 ^ s * 2 ^ s \<or> round_double p = (p div 2 ^ s + 1) * 2 ^ s"
    by (simp add: round_double_def s_def Let_def)
  from assms(1) have e: "bit_length p = 53 + s" "bit_length p - 1 = 52 + s" and "0 < p"
    by (auto simp: s_def bit_length_0 intro: gr0I)
  have "p < 2 ^ (53 + s)"
    using bit_length_upper [of p] e by simp
  then have "p < 2 ^ 53 * 2 ^ s"
    by (simp add: power_add)
  then show "p div 2 ^ s < 2 ^ 53"
    by (simp add: less_mult_imp_div_less)
  have "2 ^ (52 + s) \<le> p"
    using bit_length_lower [OF \<open>0 < p\<close>] e by simp
  then have "2 ^ 52 * 2 ^ s \<le> p"
    by (simp add: power_add)
  then have "2 ^ 52 * 2 ^ s div 2 ^ s \<le> p div 2 ^ s"
    by (rule div_le_mono)
  then show "2 ^ 52 \<le> p div 2 ^ s"
    by simp
qed

lemma round_double_lower: "0 < p \<Longrightarrow> 2 ^ (bit_length p - 1) \<le> round_double p"
proof (cases "bit_length p \<le> 53")
  case True
  assume "0 < p"
  then have "2 ^ (bit_length p - 1) \<le> p"
    by (rule bit_length_lower)
  with True show ?thesis
    by (simp only: round_double_exact)
next
  case False
  then have big: "53 < bit_length p"
    by simp
  let ?s = "bit_length p - 53"
  from big have e: "bit_length p - 1 = 52 + ?s"
    by simp
  from round_double_parts(2) [OF big] have "2 ^ 52 * 2 ^ ?s \<le> p div 2 ^ ?s * 2 ^ ?s"
    by (rule mult_le_mono1)
  moreover have "p div 2 ^ ?s * 2 ^ ?s \<le> round_double p"
    using round_double_parts(1) [OF big] by auto
  ultimately show ?thesis
    by (simp only: e power_add)
qed

lemma round_double_upper: "round_double p \<le> 2 ^ bit_length p"
proof (cases "bit_length p \<le> 53")
  case True
  then show ?thesis
    using bit_length_upper [of p] by (simp add: round_double_exact)
next
  case False
  then have big: "53 < bit_length p"
    by simp
  let ?s = "bit_length p - 53"
  from big have e: "bit_length p = 53 + ?s"
    by simp
  from round_double_parts(3) [OF big] have "p div 2 ^ ?s + 1 \<le> 2 ^ 53"
    by (simp only: Suc_eq_plus1 [symmetric] Suc_le_eq)
  then have "(p div 2 ^ ?s + 1) * 2 ^ ?s \<le> 2 ^ 53 * 2 ^ ?s"
    by (rule mult_le_mono1)
  moreover have "round_double p \<le> (p div 2 ^ ?s + 1) * 2 ^ ?s"
    using round_double_parts(1) [OF big] by auto
  ultimately have "round_double p \<le> 2 ^ 53 * 2 ^ ?s"
    by (rule order_trans [rotated])
  then show ?thesis
    by (subst e) (simp only: power_add)
qed

lemma round_double_mono:
  assumes "p \<le> p'"
  shows "round_double p \<le> round_double p'"
proof (cases "bit_length p = bit_length p'")
  case False
  with bit_length_mono [OF assms] have less: "bit_length p \<le> bit_length p' - 1"
    and "0 < bit_length p'"
    by simp_all
  then have "0 < p'"
    by (cases "p' = 0") (simp_all add: bit_length_0)
  have "round_double p \<le> 2 ^ bit_length p"
    by (rule round_double_upper)
  also from less have "(2::nat) ^ bit_length p \<le> 2 ^ (bit_length p' - 1)"
    by (simp add: power_increasing)
  also from \<open>0 < p'\<close> have "\<dots> \<le> round_double p'"
    by (rule round_double_lower)
  finally show ?thesis .
next
  case same: True
  show ?thesis
  proof (cases "bit_length p \<le> 53")
    case True
    with same assms show ?thesis
      by (simp add: round_double_exact)
  next
    case False
    define s where "s = bit_length p - 53"
    define q r q' r' where "q = p div 2 ^ s" and "r = p mod 2 ^ s"
      and "q' = p' div 2 ^ s" and "r' = p' mod 2 ^ s"
    define up where "up = (\<lambda>(q :: nat) (r :: nat). 2 ^ (s - 1) < r \<or> (r = 2 ^ (s - 1) \<and> odd q))"
    have rd: "round_double p = (if up q r then q + 1 else q) * 2 ^ s"
      using False by (simp add: round_double_def Let_def s_def q_def r_def up_def)
    have rd': "round_double p' = (if up q' r' then q' + 1 else q') * 2 ^ s"
      using False same by (simp add: round_double_def Let_def s_def q'_def r'_def up_def)
    have "q \<le> q'"
      using assms by (simp add: q_def q'_def div_le_mono)
    show ?thesis
    proof (cases "q = q'")
      case True
      have "p = q * 2 ^ s + r" and "p' = q' * 2 ^ s + r'"
        unfolding q_def r_def q'_def r'_def by (rule div_mult_mod_eq [symmetric])+
      with True assms have "r \<le> r'"
        by simp
      then have "up q r \<Longrightarrow> up q' r'"
        using True by (auto simp: up_def)
      with True show ?thesis
        by (simp add: rd rd')
    next
      case False
      with \<open>q \<le> q'\<close> have "q + 1 \<le> q'"
        by simp
      then have "(q + 1) * 2 ^ s \<le> q' * 2 ^ s"
        by (rule mult_le_mono1)
      moreover have "round_double p \<le> (q + 1) * 2 ^ s"
        by (simp add: rd)
      moreover have "q' * 2 ^ s \<le> round_double p'"
        by (simp add: rd')
      ultimately show ?thesis
        by linarith
    qed
  qed
qed

lemma int_times_1_2_mono: "m \<le> n \<Longrightarrow> int_times_1_2 m \<le> int_times_1_2 n"
  unfolding int_times_1_2_def
  by (intro div_le_mono round_double_mono mult_le_mono1)

text \<open>
  For a count below \<open>2 ^ 50\<close> the double product, truncated, is the integer part of
  six fifths of the count: the double nearest to 1.2 is \<open>(6 * 2 ^ 52 - 1) / (5 * 2 ^ 52)\<close>,
  and the rounding of the product makes up for the missing part where the count is a
  multiple of 5.
\<close>

lemma bit_length_le: "n < 2 ^ k \<Longrightarrow> bit_length n \<le> k"
proof (rule ccontr)
  assume "n < 2 ^ k" and "\<not> bit_length n \<le> k"
  then have "k \<le> bit_length n - 1" and "0 < bit_length n"
    by simp_all
  then have "0 < n"
    by (cases "n = 0") (simp_all add: bit_length_0)
  from \<open>k \<le> bit_length n - 1\<close> have "(2::nat) ^ k \<le> 2 ^ (bit_length n - 1)"
    by (simp add: power_increasing)
  also from \<open>0 < n\<close> have "\<dots> \<le> n"
    by (rule bit_length_lower)
  finally show False
    using \<open>n < 2 ^ k\<close> by simp
qed

lemma bit_length_ge: "2 ^ k \<le> n \<Longrightarrow> k < bit_length n"
proof (rule ccontr)
  assume "2 ^ k \<le> n" and "\<not> k < bit_length n"
  then have "(2::nat) ^ bit_length n \<le> 2 ^ k"
    by (simp add: power_increasing)
  with bit_length_upper [of n] \<open>2 ^ k \<le> n\<close> show False
    by simp
qed

text \<open>Rounding a number that lies within half a unit of a multiple of the unit.\<close>

lemma round_double_down:
  assumes "bit_length p = 53 + s" and "1 \<le> s"
    and "A * 2 ^ s \<le> p" and "p < A * 2 ^ s + 2 ^ (s - 1)"
  shows "round_double p = A * 2 ^ s"
proof -
  define r where "r = p - A * 2 ^ s"
  from assms(2) have E: "(2::nat) ^ s = 2 * 2 ^ (s - 1)"
    by (cases s) simp_all
  from assms(3,4) have r: "p = A * 2 ^ s + r" "r < 2 ^ (s - 1)"
    by (simp_all add: r_def)
  with E have "r < 2 ^ s"
    by simp
  with r(1) have "p div 2 ^ s = A" "p mod 2 ^ s = r"
    by simp_all
  with assms(1,2) r(2) show ?thesis
    by (simp add: round_double_def Let_def)
qed

lemma round_double_up:
  assumes "bit_length p = 53 + s" and "1 \<le> s"
    and "p < A * 2 ^ s" and "A * 2 ^ s < p + 2 ^ (s - 1)"
  shows "round_double p = A * 2 ^ s"
proof -
  from assms(2) have E: "(2::nat) ^ s = 2 * 2 ^ (s - 1)"
    by (cases s) simp_all
  from assms(3) obtain B where A: "A = Suc B"
    by (cases A) simp_all
  define r where "r = p - B * 2 ^ s"
  have "B * 2 ^ s + 2 ^ s < p + 2 ^ (s - 1)"
    using assms(4) by (simp add: A)
  with E have low: "B * 2 ^ s + 2 ^ (s - 1) < p"
    by simp
  then have r: "p = B * 2 ^ s + r"
    by (simp add: r_def)
  with assms(3) have "r < 2 ^ s"
    by (simp add: A)
  with r have dm: "p div 2 ^ s = B" "p mod 2 ^ s = r"
    by simp_all
  from low r have "2 ^ (s - 1) < r"
    by simp
  with assms(1,2) dm show ?thesis
    by (simp add: round_double_def Let_def A)
qed

lemma round_double_near:
  assumes "bit_length p = 53 + s" and "1 \<le> s"
  shows "round_double p \<le> p + 2 ^ (s - 1)"
proof -
  from assms(2) have E: "(2::nat) ^ s = 2 * 2 ^ (s - 1)"
    by (cases s) simp_all
  define q r where "q = p div 2 ^ s" and "r = p mod 2 ^ s"
  have p: "p = q * 2 ^ s + r"
    unfolding q_def r_def by (rule div_mult_mod_eq [symmetric])
  show ?thesis
  proof (cases "2 ^ (s - 1) < r \<or> (r = 2 ^ (s - 1) \<and> odd q)")
    case True
    with assms(1,2) have "round_double p = (q + 1) * 2 ^ s"
      by (simp add: round_double_def Let_def q_def r_def)
    also have "\<dots> = q * 2 ^ s + 2 * 2 ^ (s - 1)"
      using E by simp
    also from True have "\<dots> \<le> q * 2 ^ s + r + 2 ^ (s - 1)"
      by auto
    finally show ?thesis
      using p by simp
  next
    case False
    with assms(1,2) have "round_double p = q * 2 ^ s"
      by (simp add: round_double_def Let_def q_def r_def)
    with p show ?thesis
      by simp
  qed
qed

lemma round_double_multiple:
  assumes "a < 2 ^ 53"
  shows "round_double (a * 2 ^ k) = a * 2 ^ k"
proof (cases "bit_length (a * 2 ^ k) \<le> 53")
  case True
  then show ?thesis
    by (rule round_double_exact)
next
  case False
  define s where "s = bit_length (a * 2 ^ k) - 53"
  from False have e: "bit_length (a * 2 ^ k) = 53 + s" and "1 \<le> s"
    by (simp_all add: s_def)
  have "s \<le> k"
  proof (rule ccontr)
    assume "\<not> s \<le> k"
    then have "k + 53 \<le> 52 + s"
      by simp
    have "a * 2 ^ k < 2 ^ 53 * 2 ^ k"
      using assms by simp
    also have "\<dots> = 2 ^ (k + 53)"
      by (simp add: power_add)
    also from \<open>k + 53 \<le> 52 + s\<close> have "\<dots> \<le> (2::nat) ^ (52 + s)"
      by (rule power_increasing) simp
    finally have "bit_length (a * 2 ^ k) \<le> 52 + s"
      by (rule bit_length_le)
    with e show False
      by simp
  qed
  then obtain d where k: "k = s + d"
    by (metis le_Suc_ex)
  have eq: "a * 2 ^ k = (a * 2 ^ d) * 2 ^ s"
    by (simp add: k power_add)
  moreover have "round_double ((a * 2 ^ d) * 2 ^ s) = (a * 2 ^ d) * 2 ^ s"
  proof (rule round_double_down [OF _ \<open>1 \<le> s\<close>])
    show "bit_length (a * 2 ^ d * 2 ^ s) = 53 + s"
      unfolding eq [symmetric] by (rule e)
    show "a * 2 ^ d * 2 ^ s \<le> a * 2 ^ d * 2 ^ s"
      by simp
    show "a * 2 ^ d * 2 ^ s < a * 2 ^ d * 2 ^ s + 2 ^ (s - 1)"
      by simp
  qed
  ultimately show ?thesis
    by (simp only:)
qed

lemma int_times_1_2_closed_form:
  assumes "n < 2 ^ 50"
  shows "int_times_1_2 n = 6 * n div 5"
proof -
  define T :: nat where "T = 2 ^ 52"
  define p where "p = n * 5404319552844595"
  define a b where "a = 6 * n div 5" and "b = 6 * n mod 5"
  have T: "T = 4503599627370496"
    by (simp add: T_def)
  from assms have n: "n < 1125899906842624"
    by simp
  have ab: "6 * n = 5 * a + b" "b < 5"
    by (simp_all add: a_def b_def)
  have key: "5 * p + n = 5 * (a * T) + b * T"
  proof -
    have "5 * p + n = 6 * n * T"
      by (simp add: p_def T)
    also have "\<dots> = (5 * a + b) * T"
      by (simp only: ab(1))
    finally show ?thesis
      by (simp add: algebra_simps)
  qed
  have "n < 2 ^ 53"
    using n by simp
  then have "bit_length n \<le> 53"
    by (rule bit_length_le)
  then have rn: "round_double n = n"
    by (rule round_double_exact)
  have "a < 2 ^ 53"
    using n ab by simp
  then have aT: "round_double (a * T) = a * T"
    unfolding T_def by (rule round_double_multiple)
  have "p < 2 ^ 103"
    using n by (simp add: p_def)
  then have bl: "bit_length p \<le> 103"
    by (rule bit_length_le)
  have bounds: "a * T \<le> round_double p \<and> round_double p < (a + 1) * T"
  proof (cases "b = 0")
    case False
    have "a * T \<le> p"
      using key False n by (simp add: T)
    then have "round_double (a * T) \<le> round_double p"
      by (rule round_double_mono)
    then have lower: "a * T \<le> round_double p"
      by (simp only: aT)
    have room: "p + 562949953421312 < (a + 1) * T"
      using key ab(2) by (simp add: T)
    have "round_double p < (a + 1) * T"
    proof (cases "bit_length p \<le> 53")
      case True
      with room show ?thesis
        by (simp add: round_double_exact)
    next
      case False
      define s where "s = bit_length p - 53"
      from False bl have s: "bit_length p = 53 + s" "1 \<le> s" "s - 1 \<le> 49"
        by (simp_all add: s_def)
      then have "round_double p \<le> p + 2 ^ (s - 1)"
        by (simp only: round_double_near)
      also from s(3) have "(2::nat) ^ (s - 1) \<le> 2 ^ 49"
        by (rule power_increasing) simp
      finally have "round_double p \<le> p + 562949953421312"
        by simp
      with room show ?thesis
        by simp
    qed
    with lower show ?thesis ..
  next
    case True
    show ?thesis
    proof (cases "n = 0")
      case True
      then have "p = 0" "a = 0"
        by (simp_all add: p_def a_def)
      then show ?thesis
        by (simp add: round_double_exact bit_length_0 T)
    next
      case False
      define k where "k = a - n"
      from ab True have nk: "n = 5 * k" "a = 6 * k"
        by (simp_all add: k_def)
      with False have "1 \<le> k"
        by simp
      from key True nk have pk: "p + k = a * T"
        by simp
      have "4 * T * k \<le> p"
        using pk nk(2) by (simp add: T)
      have "2 ^ 54 \<le> p"
        using \<open>4 * T * k \<le> p\<close> \<open>1 \<le> k\<close> by (simp add: T)
      then have "54 < bit_length p"
        by (rule bit_length_ge)
      define s where "s = bit_length p - 53"
      from \<open>54 < bit_length p\<close> bl have s: "bit_length p = 53 + s" "1 \<le> s" "s \<le> 52"
        by (simp_all add: s_def)
      then obtain d where d: "52 = s + d"
        by (metis le_Suc_ex)
      have E: "(2::nat) ^ s = 2 * 2 ^ (s - 1)"
        using s(2) by (cases s) simp_all
      have "p < 2 ^ (53 + s)"
        using bit_length_upper [of p] by (simp only: s(1))
      also have "\<dots> = 4 * T * 2 ^ (s - 1)"
        by (simp add: power_add E T)
      finally have "p < 4 * T * 2 ^ (s - 1)" .
      with \<open>4 * T * k \<le> p\<close> have "4 * T * k < 4 * T * 2 ^ (s - 1)"
        by (rule le_less_trans)
      then have k: "k < 2 ^ (s - 1)"
        by simp
      have A: "a * T = (a * 2 ^ d) * 2 ^ s"
        by (simp add: T_def d power_add)
      have "round_double p = (a * 2 ^ d) * 2 ^ s"
      proof (rule round_double_up [OF s(1,2)])
        from pk \<open>1 \<le> k\<close> have "p < a * T"
          by simp
        then show "p < a * 2 ^ d * 2 ^ s"
          by (simp only: A)
        from pk k have "a * T < p + 2 ^ (s - 1)"
          by simp
        then show "a * 2 ^ d * 2 ^ s < p + 2 ^ (s - 1)"
          by (simp only: A)
      qed
      then have "round_double p = a * T"
        by (simp only: A)
      then show ?thesis
        by (simp add: T)
    qed
  qed
  have "round_double p div T = a"
  proof (rule div_nat_eqI)
    from bounds show "T * a \<le> round_double p"
      by (simp add: mult.commute)
    from bounds show "round_double p < T * Suc a"
      by (simp add: mult.commute)
  qed
  then show ?thesis
    by (simp add: int_times_1_2_def rn p_def T_def a_def)
qed

text \<open>
  C8. For every text, \<open>calculate_tokens\<close> is \<open>int(n * 1.2)\<close> for the sum \<open>n\<close> of the word
  count (maximal runs of word characters plus single symbols that are neither word
  characters nor whitespace), the bracket count and the count of maximal whitespace
  runs; for a sum below \<open>2 ^ 50\<close> this is the integer part of \<open>6 n / 5\<close>. Extending the
  text at either end never decreases the estimate.
\<close>

theorem calculate_tokens_formula:
  "calculate_tokens text =
     int_times_1_2 (word_count text + bracket_count text + whitespace_run_count text)
   \<and> (word_count text + bracket_count text + whitespace_run_count text < 2 ^ 50 \<longrightarrow>
        calculate_tokens text =
          6 * (word_count text + bracket_count text + whitespace_run_count text) div 5)
   \<and> calculate_tokens text \<le> calculate_tokens (before @ text @ after)"
proof (intro conjI impI)
  show formula: "calculate_tokens t =
     int_times_1_2 (word_count t + bracket_count t + whitespace_run_count t)" for t
    by (simp add: calculate_tokens_def length_findall_words length_findall_spaces
        findall_brackets_def bracket_count_def whitespace_run_count_def)
  assume "word_count text + bracket_count text + whitespace_run_count text < 2 ^ 50"
  then show "calculate_tokens text =
      6 * (word_count text + bracket_count text + whitespace_run_count text) div 5"
    by (simp only: formula int_times_1_2_closed_form)
next
  have formula: "calculate_tokens t =
     int_times_1_2 (word_count t + bracket_count t + whitespace_run_count t)" for t
    by (simp add: calculate_tokens_def length_findall_words length_findall_spaces
        findall_brackets_def bracket_count_def whitespace_run_count_def)
  have "word_count text \<le> word_count (before @ text @ after)"
    by (simp add: word_count_def add_mono count_runs_extend trans_le_add2)
  moreover have "bracket_count text \<le> bracket_count (before @ text @ after)"
    by (simp add: bracket_count_def)
  moreover have "whitespace_run_count text \<le> whitespace_run_count (before @ text @ after)"
    by (simp add: whitespace_run_count_def count_runs_extend)
  ultimately show "calculate_tokens text \<le> calculate_tokens (before @ text @ after)"
    by (simp only: formula) (intro int_times_1_2_mono add_mono)
qed

theorem calculate_tokens_formula_witness:
  "word_count ''class C{}'' + bracket_count ''class C{}'' + whitespace_run_count ''class C{}'' = 7
   \<and> calculate_tokens ''class C{}'' = 8
   \<and> calculate_tokens ''class C{}'' \<le> calculate_tokens (''final '' @ ''class C{}'' @ ''{ int n; }'')"
proof -
  have count: "word_count ''class C{}'' + bracket_count ''class C{}''
      + whitespace_run_count ''class C{}'' = 7"
    by (simp add: word_count_def bracket_count_def whitespace_run_count_def is_symbol_def char_defs)
  then have "word_count ''class C{}'' + bracket_count ''class C{}''
      + whitespace_run_count ''class C{}'' < 2 ^ 50"
    by simp
  with calculate_tokens_formula [of "''class C{}''" "''final ''" "''{ int n; }''"] count
  show ?thesis
    by simp
qed

end
